theory Spec2Isabelle
  imports Main
begin

section \<open>Options and \<open>configure\<close>\<close>

text \<open>
  The options object handed to the constructor and to \<open>reconfigure\<close>.  TypeScript
  checks \<open>IWebCallingClientOptions\<close> at compile time only; at run time any JavaScript
  object can arrive, so every field may be \<open>undefined\<close> (\<open>None\<close>) and the object may
  carry fields the interface does not declare (\<open>o_extra\<close>).
\<close>

record account =
  user :: "string option"
  password :: "string option"
  uri :: "string option"
  name :: "string option"

record transport =
  wsServers :: "string option"
  iceServers :: "string list option"

record media =
  remoteAudio :: nat
  localAudio :: nat

record client_options =
  o_account :: "account option"
  o_transport :: "transport option"
  o_media :: "media option"
  o_extra :: "(string \<times> string) list"

text \<open>The object \<open>configure\<close> builds: \<open>defaultOptions\<close> spread first, then the fields
  taken from the options.\<close>

datatype ice_server = IceServer (urls: string)

record wrapped_options =
  autostart :: bool
  autostop :: bool
  log_builtinEnabled :: bool
  log_level :: string
  noAnswerTimeout :: nat
  register_opt :: bool
  registerOptions_expires :: nat
  userAgentString :: string
  authorizationUser :: "string option"
  w_media :: "media option"
  w_password :: "string option"
  constraints_audio :: bool
  constraints_video :: bool
  rtc_iceServers :: "ice_server list"
  maxReconnectionAttempts :: nat
  traceSip :: bool
  w_wsServers :: "string option"
  w_uri :: "string option"

datatype err =
    ErrNotConnected
  | ErrRegisterFirst
  | ErrTriedToConnect nat
  | ErrEngine nat
  | ErrTypeError

text \<open>\<open>configure\<close>: the object literal is evaluated top to bottom.  Reading a property of
  \<open>undefined\<close> (\<open>account.user\<close>, \<open>transport.iceServers.map\<close>) throws a \<open>TypeError\<close>;
  nothing else is checked.\<close>

definition configure :: "client_options \<Rightarrow> err + wrapped_options" where
  "configure options =
     (case o_account options of
        None \<Rightarrow> Inl ErrTypeError
      | Some acc \<Rightarrow>
         (case o_transport options of
            None \<Rightarrow> Inl ErrTypeError
          | Some tr \<Rightarrow>
             (case iceServers tr of
                None \<Rightarrow> Inl ErrTypeError
              | Some ice \<Rightarrow>
                 Inr \<lparr> autostart = False, autostop = False,
                       log_builtinEnabled = True, log_level = ''warn'',
                       noAnswerTimeout = 60, register_opt = False,
                       registerOptions_expires = 3600,
                       userAgentString = ''vialer-calling-lib'',
                       authorizationUser = user acc,
                       w_media = o_media options,
                       w_password = password acc,
                       constraints_audio = True, constraints_video = False,
                       rtc_iceServers = map (\<lambda>s. IceServer s) ice,
                       maxReconnectionAttempts = 0, traceSip = True,
                       w_wsServers = wsServers tr,
                       w_uri = uri acc \<rparr>)))"

section \<open>Promises, listeners and suspended activations\<close>

text \<open>
  The client is single-threaded, event-driven JavaScript.  Its state is the fields of
  \<open>WebCallingClient\<close> together with what the run time keeps for it: the state of every
  promise, the listeners attached to the engine objects, the \<open>async\<close> activations
  suspended at an \<open>await\<close>, the microtask queue and the pending back-off timers of
  \<open>p-retry\<close>.  One counter (\<open>next_id\<close>) numbers everything that is created.

  A promise is named after the place that creates it, so a closure that captured
  \<open>resolve\<close>/\<open>reject\<close> of one promise can only ever settle that promise.
\<close>

datatype val = VUndef | VBool bool | VSession nat

text \<open>How a promise was settled; a promise that is still pending has no outcome.\<close>

datatype outcome = Resolved val | Rejected err

datatype pid =
    PTransport nat  \<comment> \<open>\<open>transportConnectedPromise\<close>, created in \<open>configureUA\<close>\<close>
  | PUnreg nat      \<comment> \<open>\<open>unregisteredPromise\<close>, created in \<open>disconnect\<close>\<close>
  | PReg nat        \<comment> \<open>\<open>registeredPromise\<close>, created in \<open>connect\<close>\<close>
  | PResult nat     \<comment> \<open>the promise an \<open>async\<close> method call returns\<close>
  | PEngine nat     \<comment> \<open>the promise \<open>ua.disconnect()\<close> returns\<close>
  | PRetry nat      \<comment> \<open>the promise \<open>pRetry(...)\<close> returns\<close>

text \<open>Where an \<open>async\<close> activation is suspended.  The first number of a method's
  continuation is the index of the call's result promise.\<close>

datatype cont =
    ConnectAfterUnreg nat
  | ConnectAfterTransport nat
  | DisconnectAfterUnreg nat
  | DisconnectAfterUa nat
  | InviteAfterRegistered nat string string
  | ReconfigureAfterDisconnect nat client_options
  | ReconfigureAfterConnect nat
  | ReconnectAfterRetry nat
  | RetryAfterAttempt nat nat nat
  | DisconnectedAfterDisconnect nat nat
  | DisconnectedAfterReconnect nat nat
  | Adopt nat

datatype target = OnUa nat | OnTransport nat

datatype event =
    TransportCreated
  | Connected
  | Disconnected nat
  | Registered
  | RegistrationFailed nat
  | Unregistered
  | Invite string

datatype handler =
    HTransportCreated nat
  | HConnected nat
  | HDisconnected nat
  | HRegistered nat
  | HRegistrationFailed nat
  | HUnregistered nat
  | HInvite

datatype cmd =
    Start nat
  | Register nat
  | Unregister nat
  | UaDisconnect nat
  | UaInvite nat string

datatype level = Log | Error

datatype msg =
    ConfiguringUa
  | CannotConnectWhileUnregistering
  | TryingToUnregister
  | UnregisteredMsg
  | DisconnectedMsg
  | ConnectionAttemptFailed nat nat
  | NotAttemptingToReconnect
  | TransportCreatedMsg
  | ConnectedMsg
  | UnexpectedDisconnect

record session =
  s_id :: string
  s_media :: "media option"
  s_video :: "bool option"

record client =
  ua :: "nat option"
  sessions :: "string \<rightharpoonup> nat"
  options :: wrapped_options
  transportConnectedPromise :: "pid option"
  unregisteredPromise :: "pid option"
  registeredPromise :: "pid option"
  disconnectPromise :: "pid option"
  registered :: bool
  isReconnecting :: bool
  retries :: nat
  next_id :: nat
  promises :: "pid \<Rightarrow> outcome option"
  listeners :: "(target \<times> handler) list"
  session_objs :: "nat \<rightharpoonup> session"
  terminated_once :: "nat list"
  waiters :: "(pid \<times> cont) list"
  microtasks :: "(cont \<times> outcome) list"
  timers :: "(nat \<times> nat \<times> nat) list"
  commands :: "(nat \<times> cmd) list"
  console :: "(level \<times> msg) list"
  emitted :: "nat list"

section \<open>Run-time primitives\<close>

definition bump :: "client \<Rightarrow> client" where
  "bump s = s\<lparr>next_id := Suc (next_id s)\<rparr>"

definition say :: "level \<Rightarrow> msg \<Rightarrow> client \<Rightarrow> client" where
  "say l m s = s\<lparr>console := console s @ [(l, m)]\<rparr>"

text \<open>A command issued to the engine, recorded with the index of the result promise of
  the method call that issued it.\<close>

definition issue :: "nat \<Rightarrow> cmd \<Rightarrow> client \<Rightarrow> client" where
  "issue rp c s = s\<lparr>commands := commands s @ [(rp, c)]\<rparr>"

text \<open>Settling a promise: only a pending promise changes state; its waiting activations
  are moved to the microtask queue in the order in which they started to wait.\<close>

definition settle :: "pid \<Rightarrow> outcome \<Rightarrow> client \<Rightarrow> client" where
  "settle p st s =
     (if promises s p = None then
        s\<lparr>promises := (promises s)(p \<mapsto> st),
          waiters := filter (\<lambda>w. fst w \<noteq> p) (waiters s),
          microtasks := microtasks s @
             map (\<lambda>w. (snd w, st)) (filter (\<lambda>w. fst w = p) (waiters s))\<rparr>
      else s)"

text \<open>\<open>await p\<close>: the activation continues in a later microtask, once \<open>p\<close> is settled.\<close>

definition await :: "pid \<Rightarrow> cont \<Rightarrow> client \<Rightarrow> client" where
  "await p k s =
     (case promises s p of
        None \<Rightarrow> s\<lparr>waiters := waiters s @ [(p, k)]\<rparr>
      | Some st \<Rightarrow> s\<lparr>microtasks := microtasks s @ [(k, st)]\<rparr>)"

text \<open>\<open>await x\<close> and \<open>return x\<close> where \<open>x\<close> is a field that may be \<open>undefined\<close>.\<close>

definition await_field :: "pid option \<Rightarrow> cont \<Rightarrow> client \<Rightarrow> client" where
  "await_field f k s =
     (case f of
        None \<Rightarrow> s\<lparr>microtasks := microtasks s @ [(k, Resolved VUndef)]\<rparr>
      | Some p \<Rightarrow> await p k s)"

definition return_field :: "nat \<Rightarrow> pid option \<Rightarrow> client \<Rightarrow> client" where
  "return_field rp f s =
     (case f of
        None \<Rightarrow> settle (PResult rp) (Resolved VUndef) s
      | Some p \<Rightarrow> await p (Adopt rp) s)"

section \<open>The methods of \<open>WebCallingClient\<close>\<close>

definition configureUA :: "client \<Rightarrow> client" where
  "configureUA s =
     (let u = next_id s; t = Suc (next_id s) in
      s\<lparr>next_id := Suc (Suc (next_id s)),
        ua := Some u,
        transportConnectedPromise := Some (PTransport t),
        listeners := listeners s @ [(OnUa u, HTransportCreated t), (OnUa u, HInvite)]\<rparr>)"

text \<open>\<open>connect\<close> from the test of \<open>registeredPromise\<close> on.  With no engine instance the
  executor of the new promise throws (the promise is rejected) and so does
  \<open>this.ua.start()\<close>.\<close>

definition connect_body :: "nat \<Rightarrow> client \<Rightarrow> client" where
  "connect_body rp s =
     (case registeredPromise s of
        Some r \<Rightarrow> await r (Adopt rp) s
      | None \<Rightarrow>
         (let r = next_id s; s1 = bump s in
          case ua s1 of
            None \<Rightarrow>
              settle (PResult rp) (Rejected ErrTypeError)
                (settle (PReg r) (Rejected ErrTypeError)
                   (s1\<lparr>registeredPromise := Some (PReg r)\<rparr>))
          | Some u \<Rightarrow>
              await_field (transportConnectedPromise s1) (ConnectAfterTransport rp)
                (issue rp (Start u)
                   (s1\<lparr>registeredPromise := Some (PReg r),
                       listeners := listeners s1 @
                         [(OnUa u, HRegistered r), (OnUa u, HRegistrationFailed r)]\<rparr>))))"

definition connect :: "nat \<Rightarrow> client \<Rightarrow> client" where
  "connect rp s =
     (let s1 = (if ua s = None then configureUA (say Log ConfiguringUa s) else s) in
      case unregisteredPromise s1 of
        Some up \<Rightarrow> await up (ConnectAfterUnreg rp) (say Error CannotConnectWhileUnregistering s1)
      | None \<Rightarrow> connect_body rp s1)"

definition connect_after_transport :: "nat \<Rightarrow> outcome \<Rightarrow> client \<Rightarrow> client" where
  "connect_after_transport rp outcome s =
     (case outcome of
        Rejected e \<Rightarrow> settle (PResult rp) (Rejected (ErrTriedToConnect (retries s + 1))) s
      | Resolved v \<Rightarrow>
         (case ua s of
            None \<Rightarrow> settle (PResult rp) (Rejected ErrTypeError) s
          | Some u \<Rightarrow> return_field rp (registeredPromise s) (issue rp (Register u) s)))"

text \<open>\<open>disconnect\<close> from \<open>console.log('unregistered!')\<close> to \<open>await this.ua.disconnect()\<close>.\<close>

definition disconnect_teardown :: "nat \<Rightarrow> client \<Rightarrow> client" where
  "disconnect_teardown rp s =
     (let s1 = say Log UnregisteredMsg s in
      case ua s1 of
        None \<Rightarrow> settle (PResult rp) (Rejected ErrTypeError) s1
      | Some u \<Rightarrow>
         (let d = next_id s1 in
          await (PEngine d) (DisconnectAfterUa rp) (issue rp (UaDisconnect u) (bump s1))))"

definition disconnect :: "nat \<Rightarrow> client \<Rightarrow> client" where
  "disconnect rp s =
     (case disconnectPromise s of
        Some d \<Rightarrow> await d (Adopt rp) s
      | None \<Rightarrow>
         (case ua s of
            None \<Rightarrow> settle (PResult rp) (Rejected ErrNotConnected) s
          | Some u \<Rightarrow>
             (let s1 = s\<lparr>registeredPromise := None\<rparr> in
              if registered s1 then
                (let up = next_id s1 in
                 await (PUnreg up) (DisconnectAfterUnreg rp)
                   (issue rp (Unregister u)
                      (say Log TryingToUnregister
                         ((bump s1)\<lparr>unregisteredPromise := Some (PUnreg up),
                             listeners := listeners s1 @ [(OnUa u, HUnregistered up)]\<rparr>))))
              else disconnect_teardown rp s1)))"

definition disconnect_after_ua :: "nat \<Rightarrow> outcome \<Rightarrow> client \<Rightarrow> client" where
  "disconnect_after_ua rp outcome s =
     (case outcome of
        Rejected e \<Rightarrow> settle (PResult rp) (Rejected e) s
      | Resolved v \<Rightarrow>
         (let s1 = say Log DisconnectedMsg s in
          case ua s1 of
            None \<Rightarrow> settle (PResult rp) (Rejected ErrTypeError) s1
          | Some u \<Rightarrow>
              settle (PResult rp) (Resolved VUndef)
                (s1\<lparr>listeners := filter (\<lambda>l. fst l \<noteq> OnTransport u \<and> fst l \<noteq> OnUa u) (listeners s1),
                    ua := None,
                    unregisteredPromise := None\<rparr>)))"

definition invite :: "nat \<Rightarrow> string \<Rightarrow> string \<Rightarrow> client \<Rightarrow> client" where
  "invite rp phoneNumber sid s =
     (case registeredPromise s of
        None \<Rightarrow> settle (PResult rp) (Rejected ErrRegisterFirst) s
      | Some r \<Rightarrow> await r (InviteAfterRegistered rp phoneNumber sid) s)"

text \<open>\<open>invite\<close> after \<open>await this.registeredPromise\<close>; \<open>sid\<close> is the id of the session
  the engine hands out for this call.\<close>

definition invite_after_registered :: "nat \<Rightarrow> string \<Rightarrow> string \<Rightarrow> outcome \<Rightarrow> client \<Rightarrow> client" where
  "invite_after_registered rp phoneNumber sid outcome s =
     (case outcome of
        Rejected e \<Rightarrow> settle (PResult rp) (Rejected e) s
      | Resolved v \<Rightarrow>
         (case ua s of
            None \<Rightarrow> settle (PResult rp) (Rejected ErrTypeError) s
          | Some u \<Rightarrow>
             (let ob = next_id s in
              settle (PResult rp) (Resolved (VSession ob))
                ((issue rp (UaInvite u phoneNumber) (bump s))
                   \<lparr>session_objs := (session_objs s)(ob \<mapsto>
                        \<lparr>s_id = sid, s_media = w_media (options s), s_video = None\<rparr>),
                    sessions := (sessions s)(sid \<mapsto> ob),
                    terminated_once := terminated_once s @ [ob]\<rparr>))))"

section \<open>Reconnect supervision\<close>

text \<open>
  \<open>pRetry(fn, {retries, onFailedAttempt, ...})\<close> of the \<open>p-retry\<close> package, as the
  package documents it: \<open>fn\<close> is called at once (attempt 1); when an attempt rejects,
  \<open>onFailedAttempt\<close> receives the error with \<open>attemptNumber\<close> and
  \<open>retriesLeft = retries - (attemptNumber - 1)\<close>; while retries are left the next
  attempt starts when the back-off timer fires, otherwise the returned promise rejects.
  \<open>retries\<close> counts the retries after the first attempt, which is what line 102 of the
  client (\<open>Tried to connect ${this.retries + 1} times\<close>) relies on.  The length of
  the back-off delay is the environment's business: the timer is an input.
\<close>

definition retry_attempt :: "nat \<Rightarrow> nat \<Rightarrow> nat \<Rightarrow> client \<Rightarrow> client" where
  "retry_attempt x k n s =
     (let crp = next_id s in
      await (PResult crp) (RetryAfterAttempt x k n) (connect crp (bump s)))"

definition retry_after_attempt :: "nat \<Rightarrow> nat \<Rightarrow> nat \<Rightarrow> outcome \<Rightarrow> client \<Rightarrow> client" where
  "retry_after_attempt x k n outcome s =
     (case outcome of
        Rejected e \<Rightarrow>
          (let s1 = say Log (ConnectionAttemptFailed k (n - (k - 1))) s in
           if k - 1 < n then s1\<lparr>timers := timers s1 @ [(x, Suc k, n)]\<rparr>
           else settle (PRetry x) (Rejected e) s1)
      | Resolved v \<Rightarrow> settle (PRetry x) (Resolved v) s)"

definition fire_timer :: "nat \<Rightarrow> client \<Rightarrow> client" where
  "fire_timer x s =
     (case filter (\<lambda>t. fst t = x) (timers s) of
        [] \<Rightarrow> s
      | (_, k, n) # _ \<Rightarrow>
          retry_attempt x k n (s\<lparr>timers := filter (\<lambda>t. fst t \<noteq> x) (timers s)\<rparr>))"

definition reconnect :: "nat \<Rightarrow> client \<Rightarrow> client" where
  "reconnect rp s =
     (let s1 = s\<lparr>isReconnecting := True\<rparr>; x = next_id s1 in
      await (PRetry x) (ReconnectAfterRetry rp)
        (retry_attempt x 1 (retries s1) (bump s1)))"

definition reconnect_after_retry :: "nat \<Rightarrow> outcome \<Rightarrow> client \<Rightarrow> client" where
  "reconnect_after_retry rp outcome s =
     (case outcome of
        Rejected e \<Rightarrow>
          settle (PResult rp) (Resolved (VBool False)) (say Log NotAttemptingToReconnect s)
      | Resolved v \<Rightarrow> settle (PResult rp) (Resolved (VBool True)) s)"

section \<open>Listeners\<close>

text \<open>The \<open>'disconnected'\<close> listener of the transport, up to \<open>await this.disconnect()\<close>,
  and its two continuations.\<close>

definition on_disconnected :: "nat \<Rightarrow> nat \<Rightarrow> client \<Rightarrow> client" where
  "on_disconnected t e s =
     (let s1 = say Log UnexpectedDisconnect s; drp = next_id s1 in
      await (PResult drp) (DisconnectedAfterDisconnect t e) (disconnect drp (bump s1)))"

definition disconnected_after_disconnect :: "nat \<Rightarrow> nat \<Rightarrow> outcome \<Rightarrow> client \<Rightarrow> client" where
  "disconnected_after_disconnect t e outcome s =
     (case outcome of
        Rejected x \<Rightarrow> s
      | Resolved v \<Rightarrow>
         (if isReconnecting s then settle (PTransport t) (Rejected (ErrEngine e)) s
          else (let rrp = next_id s in
                await (PResult rrp) (DisconnectedAfterReconnect t e) (reconnect rrp (bump s)))))"

text \<open>JavaScript's truthiness, for \<open>if (connected)\<close>.\<close>

fun truthy :: "val \<Rightarrow> bool" where
  "truthy VUndef = False"
| "truthy (VBool b) = b"
| "truthy (VSession ob) = True"

definition disconnected_after_reconnect :: "nat \<Rightarrow> nat \<Rightarrow> outcome \<Rightarrow> client \<Rightarrow> client" where
  "disconnected_after_reconnect t e outcome s =
     (case outcome of
        Rejected x \<Rightarrow> s
      | Resolved connected \<Rightarrow>
         (let s1 = s\<lparr>isReconnecting := False\<rparr> in
          if truthy connected then settle (PTransport t) (Resolved VUndef) s1
          else settle (PTransport t) (Rejected (ErrEngine e)) s1))"

text \<open>The event a listener was registered for.\<close>

definition listens :: "handler \<Rightarrow> event \<Rightarrow> bool" where
  "listens h ev =
     (case h of
        HTransportCreated t \<Rightarrow> ev = TransportCreated
      | HConnected t \<Rightarrow> ev = Connected
      | HDisconnected t \<Rightarrow> (case ev of Disconnected e \<Rightarrow> True | _ \<Rightarrow> False)
      | HRegistered r \<Rightarrow> ev = Registered
      | HRegistrationFailed r \<Rightarrow> (case ev of RegistrationFailed e \<Rightarrow> True | _ \<Rightarrow> False)
      | HUnregistered u \<Rightarrow> ev = Unregistered
      | HInvite \<Rightarrow> (case ev of Invite i \<Rightarrow> True | _ \<Rightarrow> False))"

text \<open>Only the \<open>'invite'\<close> listener is attached with \<open>on\<close>; all others with \<open>once\<close>.\<close>

fun is_once :: "handler \<Rightarrow> bool" where
  "is_once HInvite = False"
| "is_once _ = True"

text \<open>Running one listener; the flag says that it threw (reading \<open>this.ua.transport\<close>
  with no engine instance).\<close>

fun handle :: "handler \<Rightarrow> event \<Rightarrow> client \<Rightarrow> client \<times> bool" where
  "handle (HTransportCreated t) ev s =
     (let s1 = say Log TransportCreatedMsg s in
      case ua s1 of
        None \<Rightarrow> (s1, True)
      | Some u \<Rightarrow>
          (s1\<lparr>listeners := listeners s1 @
                [(OnTransport u, HConnected t), (OnTransport u, HDisconnected t)]\<rparr>, False))"
| "handle (HConnected t) ev s =
     (settle (PTransport t) (Resolved VUndef) (say Log ConnectedMsg s), False)"
| "handle (HDisconnected t) ev s =
     (on_disconnected t (case ev of Disconnected e \<Rightarrow> e | _ \<Rightarrow> 0) s, False)"
| "handle (HRegistered r) ev s =
     (settle (PReg r) (Resolved (VBool True)) (s\<lparr>registered := True\<rparr>), False)"
| "handle (HRegistrationFailed r) ev s =
     (settle (PReg r) (Rejected (ErrEngine (case ev of RegistrationFailed e \<Rightarrow> e | _ \<Rightarrow> 0))) s,
      False)"
| "handle (HUnregistered u) ev s =
     (settle (PUnreg u) (Resolved (VBool True)) (s\<lparr>registered := False\<rparr>), False)"
| "handle HInvite ev s =
     (let ob = next_id s; sid = (case ev of Invite i \<Rightarrow> i | _ \<Rightarrow> []) in
      ((bump s)\<lparr>session_objs := (session_objs s)(ob \<mapsto>
                   \<lparr>s_id = sid, s_media = w_media (options s), s_video = Some False\<rparr>),
                sessions := (sessions s)(sid \<mapsto> ob),
                emitted := emitted s @ [ob],
                terminated_once := terminated_once s @ [ob]\<rparr>, False))"

fun run_handlers :: "handler list \<Rightarrow> event \<Rightarrow> client \<Rightarrow> client" where
  "run_handlers [] ev s = s"
| "run_handlers (h # hs) ev s =
     (case handle h ev s of (s1, threw) \<Rightarrow> if threw then s1 else run_handlers hs ev s1)"

text \<open>\<open>emit\<close>: the listeners registered for the event on the target run in the order of
  their registration; a \<open>once\<close> listener is detached before it runs.\<close>

definition emit :: "target \<Rightarrow> event \<Rightarrow> client \<Rightarrow> client" where
  "emit tg ev s =
     run_handlers
       (map snd (filter (\<lambda>l. fst l = tg \<and> listens (snd l) ev) (listeners s))) ev
       (s\<lparr>listeners :=
            filter (\<lambda>l. \<not> (fst l = tg \<and> listens (snd l) ev \<and> is_once (snd l))) (listeners s)\<rparr>)"

text \<open>A session emits \<open>'terminated'\<close>: the \<open>once\<close> listener, if still attached, is
  detached and deletes \<open>this.sessions[session.id]\<close>.\<close>

definition terminated :: "nat \<Rightarrow> client \<Rightarrow> client" where
  "terminated ob s =
     (if ob \<in> set (terminated_once s) then
        (case session_objs s ob of
           None \<Rightarrow> s\<lparr>terminated_once := filter (\<lambda>x. x \<noteq> ob) (terminated_once s)\<rparr>
         | Some se \<Rightarrow>
             s\<lparr>terminated_once := filter (\<lambda>x. x \<noteq> ob) (terminated_once s),
               sessions := (sessions s)(s_id se := None)\<rparr>)
      else s)"

section \<open>The event loop\<close>

definition reconfigure :: "nat \<Rightarrow> client_options \<Rightarrow> client \<Rightarrow> client" where
  "reconfigure rp opts s =
     (let drp = next_id s in
      await (PResult drp) (ReconfigureAfterDisconnect rp opts) (disconnect drp (bump s)))"

definition reconfigure_after_disconnect :: "nat \<Rightarrow> client_options \<Rightarrow> outcome \<Rightarrow> client \<Rightarrow> client" where
  "reconfigure_after_disconnect rp opts outcome s =
     (case outcome of
        Rejected e \<Rightarrow> settle (PResult rp) (Rejected e) s
      | Resolved v \<Rightarrow>
         (case configure opts of
            Inl e \<Rightarrow> settle (PResult rp) (Rejected e) s
          | Inr w \<Rightarrow>
             (let s1 = s\<lparr>options := w\<rparr>; crp = next_id s1 in
              await (PResult crp) (ReconfigureAfterConnect rp) (connect crp (bump s1)))))"

text \<open>A suspended activation continues with the outcome of the promise it awaited.\<close>

fun resume :: "cont \<Rightarrow> outcome \<Rightarrow> client \<Rightarrow> client" where
  "resume (ConnectAfterUnreg rp) outcome s =
     (case outcome of
        Rejected e \<Rightarrow> settle (PResult rp) (Rejected e) s
      | Resolved v \<Rightarrow> connect_body rp s)"
| "resume (ConnectAfterTransport rp) outcome s = connect_after_transport rp outcome s"
| "resume (DisconnectAfterUnreg rp) outcome s =
     (case outcome of
        Rejected e \<Rightarrow> settle (PResult rp) (Rejected e) s
      | Resolved v \<Rightarrow> disconnect_teardown rp s)"
| "resume (DisconnectAfterUa rp) outcome s = disconnect_after_ua rp outcome s"
| "resume (InviteAfterRegistered rp phoneNumber sid) outcome s =
     invite_after_registered rp phoneNumber sid outcome s"
| "resume (ReconfigureAfterDisconnect rp opts) outcome s =
     reconfigure_after_disconnect rp opts outcome s"
| "resume (ReconfigureAfterConnect rp) outcome s =
     (case outcome of
        Rejected e \<Rightarrow> settle (PResult rp) (Rejected e) s
      | Resolved v \<Rightarrow> settle (PResult rp) (Resolved VUndef) s)"
| "resume (ReconnectAfterRetry rp) outcome s = reconnect_after_retry rp outcome s"
| "resume (RetryAfterAttempt x k n) outcome s = retry_after_attempt x k n outcome s"
| "resume (DisconnectedAfterDisconnect t e) outcome s = disconnected_after_disconnect t e outcome s"
| "resume (DisconnectedAfterReconnect t e) outcome s = disconnected_after_reconnect t e outcome s"
| "resume (Adopt rp) outcome s = settle (PResult rp) outcome s"

text \<open>
  What can happen next: the application calls a method, the engine emits an event on the
  engine instance or on its transport, the engine settles the promise of
  \<open>ua.disconnect()\<close>, a session emits \<open>'terminated'\<close>, a back-off timer fires, or the
  run time runs the next microtask.
\<close>

datatype input =
    CallConnect
  | CallDisconnect
  | CallInvite string string
  | CallReconfigure client_options
  | Emit target event
  | EngineDisconnected nat
  | EngineDisconnectFailed nat nat
  | Terminated nat
  | Timer nat
  | Tick

fun step :: "client \<Rightarrow> input \<Rightarrow> client" where
  "step s CallConnect = connect (next_id s) (bump s)"
| "step s CallDisconnect = disconnect (next_id s) (bump s)"
| "step s (CallInvite phoneNumber sid) = invite (next_id s) phoneNumber sid (bump s)"
| "step s (CallReconfigure opts) = reconfigure (next_id s) opts (bump s)"
| "step s (Emit tg ev) = emit tg ev s"
| "step s (EngineDisconnected d) =
     (if d < next_id s then settle (PEngine d) (Resolved VUndef) s else s)"
| "step s (EngineDisconnectFailed d e) =
     (if d < next_id s then settle (PEngine d) (Rejected (ErrEngine e)) s else s)"
| "step s (Terminated ob) = terminated ob s"
| "step s (Timer x) = fire_timer x s"
| "step s Tick =
     (case microtasks s of
        [] \<Rightarrow> s
      | (k, outcome) # ms \<Rightarrow> resume k outcome (s\<lparr>microtasks := ms\<rparr>))"

definition run :: "client \<Rightarrow> input list \<Rightarrow> client" where
  "run s ins = foldl step s ins"

text \<open>The constructor: the field initialisers, then \<open>configure\<close>.\<close>

definition initial :: "wrapped_options \<Rightarrow> client" where
  "initial w =
     \<lparr> ua = None, sessions = Map.empty, options = w,
       transportConnectedPromise = None, unregisteredPromise = None,
       registeredPromise = None, disconnectPromise = None,
       registered = False, isReconnecting = False, retries = 10,
       next_id = 0, promises = (\<lambda>p. None), listeners = [],
       session_objs = Map.empty, terminated_once = [],
       waiters = [], microtasks = [], timers = [],
       commands = [], console = [], emitted = [] \<rparr>"

definition new_client :: "client_options \<Rightarrow> err + client" where
  "new_client opts = (case configure opts of Inl e \<Rightarrow> Inl e | Inr w \<Rightarrow> Inr (initial w))"

text \<open>A client used in the examples: the options of an ordinary account.\<close>

definition example_options :: client_options where
  "example_options =
     \<lparr> o_account = Some \<lparr> user = Some ''alice'', password = Some ''secret'',
                           uri = Some ''sip:alice@example.org'', name = Some ''Alice'' \<rparr>,
       o_transport = Some \<lparr> wsServers = Some ''wss://example.org'',
                             iceServers = Some [''stun:example.org''] \<rparr>,
       o_media = Some \<lparr> remoteAudio = 1, localAudio = 2 \<rparr>,
       o_extra = [] \<rparr>"

definition example_wrapped :: wrapped_options where
  "example_wrapped =
     \<lparr> autostart = False, autostop = False,
       log_builtinEnabled = True, log_level = ''warn'',
       noAnswerTimeout = 60, register_opt = False,
       registerOptions_expires = 3600,
       userAgentString = ''vialer-calling-lib'',
       authorizationUser = Some ''alice'',
       w_media = Some \<lparr> remoteAudio = 1, localAudio = 2 \<rparr>,
       w_password = Some ''secret'',
       constraints_audio = True, constraints_video = False,
       rtc_iceServers = [IceServer ''stun:example.org''],
       maxReconnectionAttempts = 0, traceSip = True,
       w_wsServers = Some ''wss://example.org'',
       w_uri = Some ''sip:alice@example.org'' \<rparr>"

section \<open>Notions for the proofs\<close>

fun pidx :: "pid \<Rightarrow> nat" where
  "pidx (PTransport n) = n"
| "pidx (PUnreg n) = n"
| "pidx (PReg n) = n"
| "pidx (PResult n) = n"
| "pidx (PEngine n) = n"
| "pidx (PRetry n) = n"

text \<open>The index that owns a promise; the promise of \<open>ua.disconnect()\<close> belongs to
  the engine.\<close>

fun pown :: "pid \<Rightarrow> nat option" where
  "pown (PTransport n) = Some n"
| "pown (PUnreg n) = Some n"
| "pown (PReg n) = Some n"
| "pown (PResult n) = Some n"
| "pown (PEngine n) = None"
| "pown (PRetry n) = Some n"

fun kidx :: "cont \<Rightarrow> nat" where
  "kidx (ConnectAfterUnreg rp) = rp"
| "kidx (ConnectAfterTransport rp) = rp"
| "kidx (DisconnectAfterUnreg rp) = rp"
| "kidx (DisconnectAfterUa rp) = rp"
| "kidx (InviteAfterRegistered rp ph sid) = rp"
| "kidx (ReconfigureAfterDisconnect rp opts) = rp"
| "kidx (ReconfigureAfterConnect rp) = rp"
| "kidx (ReconnectAfterRetry rp) = rp"
| "kidx (RetryAfterAttempt x k n) = x"
| "kidx (DisconnectedAfterDisconnect t e) = t"
| "kidx (DisconnectedAfterReconnect t e) = t"
| "kidx (Adopt rp) = rp"

fun hidx :: "handler \<Rightarrow> nat option" where
  "hidx (HTransportCreated t) = Some t"
| "hidx (HConnected t) = Some t"
| "hidx (HDisconnected t) = Some t"
| "hidx (HRegistered r) = Some r"
| "hidx (HRegistrationFailed r) = Some r"
| "hidx (HUnregistered u) = Some u"
| "hidx HInvite = None"

definition hok :: "handler \<Rightarrow> nat \<Rightarrow> bool" where
  "hok h n = (case hidx h of None \<Rightarrow> True | Some i \<Rightarrow> i < n)"

definition ids_ok :: "client \<Rightarrow> bool" where
  "ids_ok s =
     ((\<forall>p. next_id s \<le> pidx p \<longrightarrow> promises s p = None) \<and>
      (\<forall>l \<in> set (listeners s). hok (snd l) (next_id s)) \<and>
      (\<forall>w \<in> set (waiters s). kidx (snd w) < next_id s \<and> promises s (fst w) = None) \<and>
      (\<forall>m \<in> set (microtasks s). kidx (fst m) < next_id s) \<and>
      (\<forall>t \<in> set (timers s). fst t < next_id s) \<and>
      (\<forall>ob \<in> set (terminated_once s). ob < next_id s) \<and>
      (\<forall>c \<in> set (commands s). fst c < next_id s))"

definition off :: "nat option \<Rightarrow> nat \<Rightarrow> bool" where
  "off J i = (J \<noteq> Some i)"

definition below :: "nat option \<Rightarrow> nat \<Rightarrow> bool" where
  "below J n = (case J of None \<Rightarrow> True | Some j \<Rightarrow> j < n)"

definition tracked :: "nat option \<Rightarrow> handler \<Rightarrow> bool" where
  "tracked J h = (case hidx h of None \<Rightarrow> False | Some i \<Rightarrow> \<not> off J i)"

fun runs :: "nat \<Rightarrow> client \<Rightarrow> input \<Rightarrow> bool" where
  "runs j s Tick = (case microtasks s of [] \<Rightarrow> False | m # ms \<Rightarrow> kidx (fst m) = j)"
| "runs j s (Emit tg ev) =
     (\<exists>l \<in> set (listeners s). fst l = tg \<and> listens (snd l) ev \<and> hidx (snd l) = Some j)"
| "runs j s (Timer x) = (x = j \<and> (\<exists>t \<in> set (timers s). fst t = x))"
| "runs j s _ = False"

definition ptracked :: "nat option \<Rightarrow> pid \<Rightarrow> bool" where
  "ptracked J p = (case pown p of None \<Rightarrow> False | Some i \<Rightarrow> \<not> off J i)"

definition loc :: "nat option \<Rightarrow> client \<Rightarrow> client \<Rightarrow> bool" where
  "loc J s s' =
     (next_id s \<le> next_id s' \<and>
      disconnectPromise s' = disconnectPromise s \<and>
      retries s' = retries s \<and>
      (\<forall>p out. promises s p = Some out \<longrightarrow> promises s' p = Some out) \<and>
      (\<forall>j. J = Some j \<longrightarrow>
         (\<forall>p. pown p = Some j \<longrightarrow> promises s' p = promises s p) \<and>
         filter (\<lambda>c. fst c = j) (commands s') = filter (\<lambda>c. fst c = j) (commands s) \<and>
         (\<forall>l \<in> set (listeners s'). hidx (snd l) = Some j \<longrightarrow> l \<in> set (listeners s)) \<and>
         (\<forall>t \<in> set (timers s'). fst t = j \<longrightarrow> t \<in> set (timers s)) \<and>
         (\<forall>w \<in> set (waiters s'). kidx (snd w) = j \<longrightarrow> w \<in> set (waiters s)) \<and>
         (\<forall>m \<in> set (microtasks s'). kidx (fst m) = j \<longrightarrow>
            m \<in> set (microtasks s) \<or>
            (\<exists>p. (p, fst m) \<in> set (waiters s) \<and> promises s p = None \<and>
                 promises s' p = Some (snd m)))))"

definition parked :: "nat \<Rightarrow> pid \<Rightarrow> cont \<Rightarrow> client \<Rightarrow> bool" where
  "parked j p k s =
     ((\<forall>l \<in> set (listeners s). hidx (snd l) \<noteq> Some j) \<and>
      (\<forall>t \<in> set (timers s). fst t \<noteq> j) \<and>
      (\<forall>m \<in> set (microtasks s). kidx (fst m) \<noteq> j) \<and>
      (\<forall>w \<in> set (waiters s). kidx (snd w) = j \<longrightarrow> w = (p, k)))"

definition listening :: "nat \<Rightarrow> handler \<Rightarrow> client \<Rightarrow> bool" where
  "listening j h s =
     ((\<forall>l \<in> set (listeners s). hidx (snd l) = Some j \<longrightarrow> snd l = h) \<and>
      (\<forall>t \<in> set (timers s). fst t \<noteq> j) \<and>
      (\<forall>m \<in> set (microtasks s). kidx (fst m) \<noteq> j) \<and>
      (\<forall>w \<in> set (waiters s). kidx (snd w) \<noteq> j))"

definition tearing_down :: "nat \<Rightarrow> nat \<Rightarrow> client \<Rightarrow> bool" where
  "tearing_down j d s =
     ((\<forall>l \<in> set (listeners s). hidx (snd l) \<noteq> Some j) \<and>
      (\<forall>t \<in> set (timers s). fst t \<noteq> j) \<and>
      (\<forall>m \<in> set (microtasks s). kidx (fst m) = j \<longrightarrow> fst m = DisconnectAfterUa j) \<and>
      (\<forall>w \<in> set (waiters s). kidx (snd w) = j \<longrightarrow> w = (PEngine d, DisconnectAfterUa j)))"

definition registered_history :: "input list" where
  "registered_history =
     [CallConnect, Emit (OnUa 1) TransportCreated, Emit (OnTransport 1) Connected, Tick,
      Emit (OnUa 1) Registered, Tick]"

definition registered_client :: client where
  "registered_client = run (initial example_wrapped) registered_history"

definition connecting_client :: client where
  "connecting_client = run (initial example_wrapped) [CallConnect]"

definition adopting :: "nat \<Rightarrow> pid \<Rightarrow> client \<Rightarrow> bool" where
  "adopting j r s =
     ((\<forall>l \<in> set (listeners s). hidx (snd l) \<noteq> Some j) \<and>
      (\<forall>t \<in> set (timers s). fst t \<noteq> j) \<and>
      (\<forall>m \<in> set (microtasks s). kidx (fst m) = j \<longrightarrow>
          fst m = Adopt j \<and> promises s r = Some (snd m)) \<and>
      (\<forall>w \<in> set (waiters s). kidx (snd w) = j \<longrightarrow> w = (r, Adopt j)) \<and>
      (promises s (PResult j) = None \<or> promises s (PResult j) = promises s r))"

definition sview :: "client \<Rightarrow> (string \<rightharpoonup> nat) \<times> (nat \<rightharpoonup> session) \<times> nat list" where
  "sview s = (sessions s, session_objs s, terminated_once s)"

definition sess_ok :: "client \<Rightarrow> bool" where
  "sess_ok s =
     ((\<forall>sid ob. sessions s sid = Some ob \<longrightarrow>
         ob \<in> set (terminated_once s) \<and>
         (case session_objs s ob of None \<Rightarrow> False | Some se \<Rightarrow> s_id se = sid)) \<and>
      (\<forall>ob \<in> set (terminated_once s). session_objs s ob \<noteq> None))"

definition overlapping_connects :: "input list" where
  "overlapping_connects =
     [CallConnect, CallConnect,
      Emit (OnUa 1) TransportCreated, Emit (OnTransport 1) (Disconnected 7),
      EngineDisconnected 6, Tick, Tick,
      Emit (OnUa 10) TransportCreated, Emit (OnTransport 10) Connected, Tick,
      Emit (OnUa 10) Registered, Tick, Tick, Tick, Tick, Tick, Tick]"

definition overlapping_disconnects :: "input list" where
  "overlapping_disconnects =
     registered_history @
     [CallDisconnect, CallDisconnect, Emit (OnUa 1) Unregistered, Tick, Tick,
      EngineDisconnected 8, Tick, EngineDisconnected 9, Tick]"

definition unregistering_client :: client where
  "unregistering_client =
     run (initial example_wrapped) (registered_history @ [CallDisconnect])"

definition ringing_client :: client where
  "ringing_client =
     run (initial example_wrapped) [CallConnect, Emit (OnUa 1) (Invite ''call-7'')]"

definition dialling :: "input list" where
  "dialling =
     [CallConnect, CallInvite ''100'' ''call-1'',
      Emit (OnUa 1) TransportCreated, Emit (OnTransport 1) Connected, Tick,
      Emit (OnUa 1) Registered, Tick, Tick]"

lemma next_id_prims [simp]:
  "next_id (bump s) = Suc (next_id s)"
  "next_id (say l m s) = next_id s"
  "next_id (issue rp c s) = next_id s"
  "next_id (settle p st s) = next_id s"
  "next_id (await p k s) = next_id s"
  "next_id (await_field f k s) = next_id s"
  "next_id (return_field rp f s) = next_id s"
  by (simp_all add: bump_def say_def issue_def settle_def await_def await_field_def
        return_field_def split: option.splits)

lemma below_mono: "below J n \<Longrightarrow> n \<le> m \<Longrightarrow> below J m"
  by (auto simp: below_def split: option.splits)

lemma below_off: "below J n \<Longrightarrow> n \<le> m \<Longrightarrow> off J m"
  by (auto simp: below_def off_def split: option.splits)

lemma loc_refl: "loc J s s"
  by (simp add: loc_def)

lemma loc_next: "loc J s s' \<Longrightarrow> next_id s \<le> next_id s'"
  by (simp add: loc_def)

lemma loc_stable: "loc J s s' \<Longrightarrow> promises s p = Some out \<Longrightarrow> promises s' p = Some out"
  by (simp add: loc_def)

lemma loc_pending: "loc J s s' \<Longrightarrow> promises s' p = None \<Longrightarrow> promises s p = None"
  by (cases "promises s p") (auto dest: loc_stable)

lemma loc_trans:
  assumes a: "loc J s s1" and b: "loc J s1 s2"
  shows "loc J s s2"
proof -
  have base: "next_id s \<le> next_id s2 \<and> disconnectPromise s2 = disconnectPromise s \<and>
      retries s2 = retries s \<and>
      (\<forall>p out. promises s p = Some out \<longrightarrow> promises s2 p = Some out)"
    using a b by (simp add: loc_def)
  have tracked: "(\<forall>p. pown p = Some j \<longrightarrow> promises s2 p = promises s p) \<and>
         filter (\<lambda>c. fst c = j) (commands s2) = filter (\<lambda>c. fst c = j) (commands s) \<and>
         (\<forall>l \<in> set (listeners s2). hidx (snd l) = Some j \<longrightarrow> l \<in> set (listeners s)) \<and>
         (\<forall>t \<in> set (timers s2). fst t = j \<longrightarrow> t \<in> set (timers s)) \<and>
         (\<forall>w \<in> set (waiters s2). kidx (snd w) = j \<longrightarrow> w \<in> set (waiters s)) \<and>
         (\<forall>m \<in> set (microtasks s2). kidx (fst m) = j \<longrightarrow>
            m \<in> set (microtasks s) \<or>
            (\<exists>p. (p, fst m) \<in> set (waiters s) \<and> promises s p = None \<and>
                 promises s2 p = Some (snd m)))" if J: "J = Some j" for j
  proof -
    have a1: "\<forall>p. pown p = Some j \<longrightarrow> promises s1 p = promises s p"
      and a2: "filter (\<lambda>c. fst c = j) (commands s1) = filter (\<lambda>c. fst c = j) (commands s)"
      and a3: "\<forall>l \<in> set (listeners s1). hidx (snd l) = Some j \<longrightarrow> l \<in> set (listeners s)"
      and a4: "\<forall>t \<in> set (timers s1). fst t = j \<longrightarrow> t \<in> set (timers s)"
      and a5: "\<forall>w \<in> set (waiters s1). kidx (snd w) = j \<longrightarrow> w \<in> set (waiters s)"
      and a6: "\<forall>m \<in> set (microtasks s1). kidx (fst m) = j \<longrightarrow>
            m \<in> set (microtasks s) \<or>
            (\<exists>p. (p, fst m) \<in> set (waiters s) \<and> promises s p = None \<and>
                 promises s1 p = Some (snd m))"
      using a J by (simp_all add: loc_def)
    have b1: "\<forall>p. pown p = Some j \<longrightarrow> promises s2 p = promises s1 p"
      and b2: "filter (\<lambda>c. fst c = j) (commands s2) = filter (\<lambda>c. fst c = j) (commands s1)"
      and b3: "\<forall>l \<in> set (listeners s2). hidx (snd l) = Some j \<longrightarrow> l \<in> set (listeners s1)"
      and b4: "\<forall>t \<in> set (timers s2). fst t = j \<longrightarrow> t \<in> set (timers s1)"
      and b5: "\<forall>w \<in> set (waiters s2). kidx (snd w) = j \<longrightarrow> w \<in> set (waiters s1)"
      and b6: "\<forall>m \<in> set (microtasks s2). kidx (fst m) = j \<longrightarrow>
            m \<in> set (microtasks s1) \<or>
            (\<exists>p. (p, fst m) \<in> set (waiters s1) \<and> promises s1 p = None \<and>
                 promises s2 p = Some (snd m))"
      using b J by (simp_all add: loc_def)
    have c6: "m \<in> set (microtasks s) \<or>
            (\<exists>p. (p, fst m) \<in> set (waiters s) \<and> promises s p = None \<and>
                 promises s2 p = Some (snd m))"
      if m: "m \<in> set (microtasks s2)" and k: "kidx (fst m) = j" for m
    proof -
      from b6 m k consider
          (old) "m \<in> set (microtasks s1)"
        | (moved) p where "(p, fst m) \<in> set (waiters s1)" "promises s1 p = None"
            "promises s2 p = Some (snd m)"
        by blast
      then show ?thesis
      proof cases
        case old
        with a6 k consider
            (old2) "m \<in> set (microtasks s)"
          | (moved2) p where "(p, fst m) \<in> set (waiters s)" "promises s p = None"
              "promises s1 p = Some (snd m)"
          by blast
        then show ?thesis
        proof cases
          case old2
          then show ?thesis by simp
        next
          case moved2
          then have "promises s2 p = Some (snd m)" using b by (simp add: loc_stable)
          with moved2 show ?thesis by blast
        qed
      next
        case moved
        have "(p, fst m) \<in> set (waiters s)" using a5 moved(1) k by force
        moreover have "promises s p = None" using a moved(2) by (rule loc_pending)
        ultimately show ?thesis using moved(3) by blast
      qed
    qed
    show ?thesis
      using a1 a2 a3 a4 a5 b1 b2 b3 b4 b5 c6 by simp
  qed
  show ?thesis
    unfolding loc_def using base tracked by blast
qed

lemma tracked_simps [simp]:
  "tracked J (HTransportCreated t) = (\<not> off J t)"
  "tracked J (HConnected t) = (\<not> off J t)"
  "tracked J (HDisconnected t) = (\<not> off J t)"
  "tracked J (HRegistered r) = (\<not> off J r)"
  "tracked J (HRegistrationFailed r) = (\<not> off J r)"
  "tracked J (HUnregistered u) = (\<not> off J u)"
  "tracked J HInvite = False"
  by (simp_all add: tracked_def)

lemma ptracked_simps [simp]:
  "ptracked J (PTransport n) = (\<not> off J n)"
  "ptracked J (PUnreg n) = (\<not> off J n)"
  "ptracked J (PReg n) = (\<not> off J n)"
  "ptracked J (PResult n) = (\<not> off J n)"
  "ptracked J (PEngine n) = False"
  "ptracked J (PRetry n) = (\<not> off J n)"
  by (simp_all add: ptracked_def)

lemma loc_bump: "loc J s s1 \<Longrightarrow> loc J s (bump s1)"
  by (erule loc_trans) (simp add: loc_def bump_def)

lemma loc_say: "loc J s s1 \<Longrightarrow> loc J s (say l m s1)"
  by (erule loc_trans) (simp add: loc_def say_def)

lemma loc_issue: "loc J s s1 \<Longrightarrow> off J rp \<Longrightarrow> loc J s (issue rp c s1)"
  by (erule loc_trans) (simp add: loc_def issue_def off_def)

lemma loc_settle: "loc J s s1 \<Longrightarrow> \<not> ptracked J p \<Longrightarrow> loc J s (settle p out s1)"
  by (erule loc_trans) (auto simp add: loc_def settle_def off_def ptracked_def)

lemma loc_await: "loc J s s1 \<Longrightarrow> off J (kidx k) \<Longrightarrow> loc J s (await p k s1)"
  by (erule loc_trans) (auto simp add: loc_def await_def off_def split: option.splits)

lemma loc_await_field: "loc J s s1 \<Longrightarrow> off J (kidx k) \<Longrightarrow> loc J s (await_field f k s1)"
  by (cases f) (auto simp add: await_field_def loc_await, auto simp: loc_def off_def)

lemma loc_return_field: "loc J s s1 \<Longrightarrow> off J rp \<Longrightarrow> loc J s (return_field rp f s1)"
  by (cases f) (auto simp add: return_field_def loc_await loc_settle)

lemma loc_upd:
  "loc J s s1 \<Longrightarrow> loc J s (s1\<lparr>ua := u\<rparr>)"
  "loc J s s1 \<Longrightarrow> loc J s (s1\<lparr>transportConnectedPromise := a\<rparr>)"
  "loc J s s1 \<Longrightarrow> loc J s (s1\<lparr>registeredPromise := a\<rparr>)"
  "loc J s s1 \<Longrightarrow> loc J s (s1\<lparr>unregisteredPromise := a\<rparr>)"
  "loc J s s1 \<Longrightarrow> loc J s (s1\<lparr>registered := b\<rparr>)"
  "loc J s s1 \<Longrightarrow> loc J s (s1\<lparr>isReconnecting := b\<rparr>)"
  "loc J s s1 \<Longrightarrow> loc J s (s1\<lparr>options := w\<rparr>)"
  "loc J s s1 \<Longrightarrow> loc J s (s1\<lparr>sessions := m\<rparr>)"
  "loc J s s1 \<Longrightarrow> loc J s (s1\<lparr>session_objs := so\<rparr>)"
  "loc J s s1 \<Longrightarrow> loc J s (s1\<lparr>terminated_once := ts\<rparr>)"
  "loc J s s1 \<Longrightarrow> loc J s (s1\<lparr>emitted := es\<rparr>)"
  by (simp_all add: loc_def)

lemma loc_upd_listeners:
  "loc J s s1 \<Longrightarrow> \<forall>l \<in> set ls. tracked J (snd l) \<longrightarrow> l \<in> set (listeners s1) \<Longrightarrow>
   loc J s (s1\<lparr>listeners := ls\<rparr>)"
  by (erule loc_trans) (auto simp add: loc_def tracked_def off_def)

lemma loc_upd_timers:
  "loc J s s1 \<Longrightarrow> \<forall>t \<in> set ts. \<not> off J (fst t) \<longrightarrow> t \<in> set (timers s1) \<Longrightarrow>
   loc J s (s1\<lparr>timers := ts\<rparr>)"
  by (erule loc_trans) (auto simp add: loc_def off_def)

lemma loc_upd_microtasks:
  "loc J s s1 \<Longrightarrow> \<forall>m \<in> set ms. \<not> off J (kidx (fst m)) \<longrightarrow> m \<in> set (microtasks s1) \<Longrightarrow>
   loc J s (s1\<lparr>microtasks := ms\<rparr>)"
  by (erule loc_trans) (auto simp add: loc_def off_def)

lemmas loc_intros = loc_bump loc_say loc_issue loc_settle loc_await loc_await_field
  loc_return_field loc_upd loc_upd_listeners loc_upd_timers

lemma loc_configureUA: "loc J s s1 \<Longrightarrow> below J (next_id s1) \<Longrightarrow> loc J s (configureUA s1)"
  by (erule loc_trans)
     (auto simp add: loc_def configureUA_def Let_def below_def tracked_def off_def)

lemma next_id_configureUA [simp]: "next_id (configureUA s) = Suc (Suc (next_id s))"
  by (simp add: configureUA_def Let_def)

lemma loc_connect_body:
  "loc J s s1 \<Longrightarrow> off J rp \<Longrightarrow> below J (next_id s1) \<Longrightarrow> loc J s (connect_body rp s1)"
  apply (simp add: connect_body_def Let_def split: option.splits)
  apply (intro conjI impI allI loc_intros)
  apply (auto simp: below_def off_def bump_def split: option.splits)
  done

section \<open>loc for the methods\<close>

lemma next_id_connect_body: "next_id s \<le> next_id (connect_body rp s)"
  by (simp add: connect_body_def Let_def split: option.splits)

lemma next_id_connect: "next_id s \<le> next_id (connect rp s)"
  using next_id_connect_body [of "configureUA (say Log ConfiguringUa s)" rp]
        next_id_connect_body [of s rp]
  by (auto simp add: connect_def Let_def split: option.splits)

lemma lt_connect: "a < next_id s \<Longrightarrow> a < next_id (connect rp s)"
  using next_id_connect [of s rp] by simp

lemma loc_connect:
  "loc J s s1 \<Longrightarrow> off J rp \<Longrightarrow> below J (next_id s1) \<Longrightarrow> loc J s (connect rp s1)"
  apply (simp add: connect_def Let_def split: option.splits)
  apply (intro conjI impI allI loc_intros loc_connect_body loc_configureUA)
  apply (auto simp: below_def off_def split: option.splits)
  done

lemma loc_connect_after_transport:
  "loc J s s1 \<Longrightarrow> off J rp \<Longrightarrow> loc J s (connect_after_transport rp outcome s1)"
  apply (simp add: connect_after_transport_def Let_def split: option.splits outcome.splits)
  apply (intro conjI impI allI loc_intros)
  apply (auto simp: below_def off_def split: option.splits)
  done

lemma next_id_disconnect_teardown: "next_id s \<le> next_id (disconnect_teardown rp s)"
  by (simp add: disconnect_teardown_def Let_def split: option.splits)

lemma loc_disconnect_teardown:
  "loc J s s1 \<Longrightarrow> off J rp \<Longrightarrow> below J (next_id s1) \<Longrightarrow> loc J s (disconnect_teardown rp s1)"
  apply (simp add: disconnect_teardown_def Let_def split: option.splits)
  apply (intro conjI impI allI loc_intros)
  apply (auto simp: below_def off_def split: option.splits)
  done

lemma next_id_disconnect: "next_id s \<le> next_id (disconnect rp s)"
  using next_id_disconnect_teardown [of "s\<lparr>registeredPromise := None\<rparr>" rp]
  by (auto simp add: disconnect_def Let_def split: option.splits)

lemma lt_disconnect: "a < next_id s \<Longrightarrow> a < next_id (disconnect rp s)"
  using next_id_disconnect [of s rp] by simp

lemma loc_disconnect:
  "loc J s s1 \<Longrightarrow> off J rp \<Longrightarrow> below J (next_id s1) \<Longrightarrow> loc J s (disconnect rp s1)"
  apply (simp add: disconnect_def Let_def split: option.splits)
  apply (intro conjI impI allI loc_intros loc_disconnect_teardown)
  apply (auto simp: below_def off_def bump_def split: option.splits)
  done

lemma loc_disconnect_after_ua:
  "loc J s s1 \<Longrightarrow> off J rp \<Longrightarrow> loc J s (disconnect_after_ua rp outcome s1)"
  apply (simp add: disconnect_after_ua_def Let_def split: option.splits outcome.splits)
  apply (intro conjI impI allI loc_intros)
  apply (auto simp: below_def off_def say_def split: option.splits)
  done

lemma loc_invite: "loc J s s1 \<Longrightarrow> off J rp \<Longrightarrow> loc J s (invite rp ph sid s1)"
  apply (simp add: invite_def split: option.splits)
  apply (intro conjI impI allI loc_intros)
  apply simp_all
  done

lemma loc_invite_after_registered:
  "loc J s s1 \<Longrightarrow> off J rp \<Longrightarrow> loc J s (invite_after_registered rp ph sid outcome s1)"
  apply (simp add: invite_after_registered_def Let_def split: option.splits outcome.splits)
  apply (intro conjI impI allI loc_intros)
  apply simp_all
  done

lemma next_id_retry_attempt: "next_id s \<le> next_id (retry_attempt x k n s)"
  using next_id_connect [of "bump s" "next_id s"]
  by (simp add: retry_attempt_def Let_def)

lemma lt_retry_attempt: "a < next_id s \<Longrightarrow> a < next_id (retry_attempt x k n s)"
  using next_id_retry_attempt [of s x k n] by simp

lemma loc_retry_attempt:
  "loc J s s1 \<Longrightarrow> off J x \<Longrightarrow> below J (next_id s1) \<Longrightarrow> loc J s (retry_attempt x k n s1)"
  apply (simp add: retry_attempt_def Let_def)
  apply (intro conjI impI allI loc_intros loc_connect)
  apply (auto simp: below_def off_def split: option.splits)
  done

lemma loc_retry_after_attempt:
  "loc J s s1 \<Longrightarrow> off J x \<Longrightarrow> loc J s (retry_after_attempt x k n outcome s1)"
  apply (simp add: retry_after_attempt_def Let_def split: outcome.splits)
  apply (intro conjI impI allI loc_intros)
  apply (auto simp: say_def)
  done

lemma loc_fire_timer:
  "loc J s s1 \<Longrightarrow> off J x \<or> (\<forall>t \<in> set (timers s1). fst t \<noteq> x) \<Longrightarrow>
   below J (next_id s1) \<Longrightarrow> loc J s (fire_timer x s1)"
  apply (simp add: fire_timer_def split: list.splits prod.splits)
  apply (intro conjI impI allI loc_intros loc_retry_attempt)
  apply (auto simp: filter_eq_Cons_iff filter_empty_conv)
  done

lemma next_id_reconnect: "next_id s \<le> next_id (reconnect rp s)"
  using next_id_retry_attempt [of "bump (s\<lparr>isReconnecting := True\<rparr>)" "next_id s" 1 "retries s"]
  by (simp add: reconnect_def Let_def bump_def)

lemma lt_reconnect: "a < next_id s \<Longrightarrow> a < next_id (reconnect rp s)"
  using next_id_reconnect [of s rp] by simp

lemma loc_reconnect:
  "loc J s s1 \<Longrightarrow> off J rp \<Longrightarrow> below J (next_id s1) \<Longrightarrow> loc J s (reconnect rp s1)"
  apply (simp add: reconnect_def Let_def)
  apply (intro conjI impI allI loc_intros loc_retry_attempt)
  apply (auto simp: below_def off_def bump_def split: option.splits)
  done

lemma loc_reconnect_after_retry:
  "loc J s s1 \<Longrightarrow> off J rp \<Longrightarrow> loc J s (reconnect_after_retry rp outcome s1)"
  apply (simp add: reconnect_after_retry_def split: outcome.splits)
  apply (intro conjI impI allI loc_intros)
  apply simp_all
  done

lemma loc_on_disconnected:
  "loc J s s1 \<Longrightarrow> off J t \<Longrightarrow> below J (next_id s1) \<Longrightarrow> loc J s (on_disconnected t e s1)"
  apply (simp add: on_disconnected_def Let_def)
  apply (intro conjI impI allI loc_intros loc_disconnect)
  apply (auto simp: below_def off_def split: option.splits)
  done

lemma loc_disconnected_after_disconnect:
  "loc J s s1 \<Longrightarrow> off J t \<Longrightarrow> below J (next_id s1) \<Longrightarrow>
   loc J s (disconnected_after_disconnect t e outcome s1)"
  apply (simp add: disconnected_after_disconnect_def Let_def split: outcome.splits)
  apply (intro conjI impI allI loc_intros loc_reconnect)
  apply (auto simp: below_def off_def split: option.splits)
  done

lemma loc_disconnected_after_reconnect:
  "loc J s s1 \<Longrightarrow> off J t \<Longrightarrow> loc J s (disconnected_after_reconnect t e outcome s1)"
  apply (simp add: disconnected_after_reconnect_def Let_def split: outcome.splits)
  apply (intro conjI impI allI loc_intros)
  apply simp_all
  done

lemma loc_reconfigure:
  "loc J s s1 \<Longrightarrow> off J rp \<Longrightarrow> below J (next_id s1) \<Longrightarrow> loc J s (reconfigure rp opts s1)"
  apply (simp add: reconfigure_def Let_def)
  apply (intro conjI impI allI loc_intros loc_disconnect)
  apply (auto simp: below_def off_def split: option.splits)
  done

lemma loc_reconfigure_after_disconnect:
  "loc J s s1 \<Longrightarrow> off J rp \<Longrightarrow> below J (next_id s1) \<Longrightarrow>
   loc J s (reconfigure_after_disconnect rp opts outcome s1)"
  apply (simp add: reconfigure_after_disconnect_def Let_def split: outcome.splits sum.splits)
  apply (intro conjI impI allI loc_intros loc_connect)
  apply (auto simp: below_def off_def bump_def split: option.splits)
  done

lemma loc_resume:
  "loc J s s1 \<Longrightarrow> off J (kidx k) \<Longrightarrow> below J (next_id s1) \<Longrightarrow> loc J s (resume k outcome s1)"
  by (cases k)
     (auto simp: loc_connect_body loc_connect_after_transport loc_disconnect_teardown
        loc_disconnect_after_ua loc_invite_after_registered
        loc_reconfigure_after_disconnect loc_reconnect_after_retry
        loc_retry_after_attempt loc_disconnected_after_disconnect
        loc_disconnected_after_reconnect loc_settle split: outcome.splits)

lemma loc_terminated: "loc J s s1 \<Longrightarrow> loc J s (terminated ob s1)"
  by (auto simp: terminated_def loc_upd split: option.splits)

lemma next_id_handle: "next_id s \<le> next_id (fst (handle h ev s))"
  using next_id_disconnect [of "bump (say Log UnexpectedDisconnect s)" "next_id s"]
  by (cases h) (auto simp add: Let_def on_disconnected_def bump_def split: option.splits)

lemma loc_handle:
  assumes "loc J s s1" and "\<not> tracked J h" and "below J (next_id s1)"
  shows "loc J s (fst (handle h ev s1))"
proof (cases h)
  case (HTransportCreated t)
  then show ?thesis using assms
    by (auto simp: Let_def split: option.splits intro!: loc_intros)
next
  case (HConnected t)
  then show ?thesis using assms by (auto intro!: loc_intros)
next
  case (HDisconnected t)
  then show ?thesis using assms by (auto intro!: loc_on_disconnected)
next
  case (HRegistered r)
  then show ?thesis using assms by (auto intro!: loc_intros)
next
  case (HRegistrationFailed r)
  then show ?thesis using assms by (auto intro!: loc_intros)
next
  case (HUnregistered u)
  then show ?thesis using assms by (auto intro!: loc_intros)
next
  case HInvite
  then show ?thesis using assms by (auto simp: Let_def intro!: loc_intros)
qed

lemma loc_run_handlers:
  "loc J s s1 \<Longrightarrow> \<forall>h \<in> set hs. \<not> tracked J h \<Longrightarrow> below J (next_id s1) \<Longrightarrow>
   loc J s (run_handlers hs ev s1)"
proof (induction hs arbitrary: s1)
  case Nil
  then show ?case by simp
next
  case (Cons h hs)
  obtain s2 threw where h: "handle h ev s1 = (s2, threw)" by (cases "handle h ev s1")
  have l: "loc J s s2" using loc_handle [of J s s1 h ev] Cons.prems h by simp
  have le: "next_id s1 \<le> next_id s2" using next_id_handle [of s1 h ev] h by simp
  have "below J (next_id s2)" using Cons.prems(3) le by (rule below_mono)
  then show ?case using Cons.IH [OF l] Cons.prems(2) l h by simp
qed

lemma loc_emit:
  "loc J s s1 \<Longrightarrow> below J (next_id s1) \<Longrightarrow>
   \<forall>l \<in> set (listeners s1). fst l = tg \<and> listens (snd l) ev \<longrightarrow> \<not> tracked J (snd l) \<Longrightarrow>
   loc J s (emit tg ev s1)"
  unfolding emit_def
  apply (rule loc_run_handlers)
    apply (rule loc_upd_listeners)
     apply auto
  done

lemma loc_step:
  assumes b: "below J (next_id s)" and nr: "\<forall>j. J = Some j \<longrightarrow> \<not> runs j s i"
  shows "loc J s (step s i)"
proof (cases i)
  case CallConnect
  then show ?thesis using b
    by (auto intro!: loc_connect loc_bump loc_refl simp: below_def off_def split: option.splits)
next
  case CallDisconnect
  then show ?thesis using b
    by (auto intro!: loc_disconnect loc_bump loc_refl simp: below_def off_def split: option.splits)
next
  case (CallInvite ph sid)
  then show ?thesis using b
    by (auto intro!: loc_invite loc_bump loc_refl simp: below_def off_def split: option.splits)
next
  case (CallReconfigure opts)
  then show ?thesis using b
    by (auto intro!: loc_reconfigure loc_bump loc_refl simp: below_def off_def split: option.splits)
next
  case (Emit tg ev)
  have "\<forall>l \<in> set (listeners s). fst l = tg \<and> listens (snd l) ev \<longrightarrow> \<not> tracked J (snd l)"
    using nr Emit by (auto simp: tracked_def off_def split: option.splits)
  then show ?thesis using Emit b by (simp add: loc_emit loc_refl)
next
  case (EngineDisconnected d)
  then show ?thesis by (auto intro!: loc_settle loc_refl)
next
  case (EngineDisconnectFailed d e)
  then show ?thesis by (auto intro!: loc_settle loc_refl)
next
  case (Terminated ob)
  then show ?thesis by (simp add: loc_terminated loc_refl)
next
  case (Timer x)
  then show ?thesis using nr b by (auto intro!: loc_fire_timer loc_refl simp: off_def)
next
  case Tick
  show ?thesis
  proof (cases "microtasks s")
    case Nil
    then show ?thesis using Tick by (simp add: loc_refl)
  next
    case (Cons m ms)
    obtain k outcome where m: "m = (k, outcome)" by (cases m)
    have "loc J s (s\<lparr>microtasks := ms\<rparr>)"
      using Cons by (auto intro!: loc_upd_microtasks loc_refl)
    moreover have "off J (kidx k)" using nr Tick Cons m by (auto simp: off_def)
    ultimately show ?thesis using Tick Cons m b by (simp add: loc_resume)
  qed
qed

text \<open>Facts that hold across any step.\<close>

lemma step_any: "loc None s (step s i)"
  by (rule loc_step) (simp_all add: below_def)

lemma run_any: "loc None s (run s ins)"
  unfolding run_def
proof (induction ins arbitrary: s)
  case Nil
  then show ?case by (simp add: loc_refl)
next
  case (Cons i ins)
  have "loc None s (step s i)" by (rule step_any)
  then show ?case using Cons.IH [of "step s i"] by (auto intro: loc_trans)
qed

lemma hok_mono: "hok h n \<Longrightarrow> n \<le> m \<Longrightarrow> hok h m"
  by (auto simp: hok_def split: option.splits)

lemma hok_simps [simp]:
  "hok (HTransportCreated t) n = (t < n)"
  "hok (HConnected t) n = (t < n)"
  "hok (HDisconnected t) n = (t < n)"
  "hok (HRegistered r) n = (r < n)"
  "hok (HRegistrationFailed r) n = (r < n)"
  "hok (HUnregistered u) n = (u < n)"
  "hok HInvite n = True"
  by (simp_all add: hok_def)

lemma ids_ok_upd [simp]:
  "ids_ok (s\<lparr>registeredPromise := a\<rparr>) = ids_ok s"
  "ids_ok (s\<lparr>unregisteredPromise := a\<rparr>) = ids_ok s"
  "ids_ok (s\<lparr>transportConnectedPromise := a\<rparr>) = ids_ok s"
  "ids_ok (s\<lparr>registered := b\<rparr>) = ids_ok s"
  "ids_ok (s\<lparr>isReconnecting := b\<rparr>) = ids_ok s"
  "ids_ok (s\<lparr>options := w\<rparr>) = ids_ok s"
  "ids_ok (s\<lparr>ua := u\<rparr>) = ids_ok s"
  "ids_ok (s\<lparr>sessions := m\<rparr>) = ids_ok s"
  "ids_ok (s\<lparr>session_objs := so\<rparr>) = ids_ok s"
  "ids_ok (s\<lparr>emitted := es\<rparr>) = ids_ok s"
  by (simp_all add: ids_ok_def)

lemma ids_ok_updI:
  "ids_ok s \<Longrightarrow> ids_ok (s\<lparr>registeredPromise := a\<rparr>)"
  "ids_ok s \<Longrightarrow> ids_ok (s\<lparr>unregisteredPromise := a\<rparr>)"
  "ids_ok s \<Longrightarrow> ids_ok (s\<lparr>transportConnectedPromise := a\<rparr>)"
  "ids_ok s \<Longrightarrow> ids_ok (s\<lparr>registered := b\<rparr>)"
  "ids_ok s \<Longrightarrow> ids_ok (s\<lparr>isReconnecting := b\<rparr>)"
  "ids_ok s \<Longrightarrow> ids_ok (s\<lparr>options := w\<rparr>)"
  "ids_ok s \<Longrightarrow> ids_ok (s\<lparr>ua := u\<rparr>)"
  "ids_ok s \<Longrightarrow> ids_ok (s\<lparr>sessions := m\<rparr>)"
  "ids_ok s \<Longrightarrow> ids_ok (s\<lparr>session_objs := so\<rparr>)"
  "ids_ok s \<Longrightarrow> ids_ok (s\<lparr>emitted := es\<rparr>)"
  by simp_all

lemma ids_ok_bump: "ids_ok s \<Longrightarrow> ids_ok (bump s)"
  by (auto simp: ids_ok_def bump_def intro: hok_mono less_SucI)

lemma ids_ok_say: "ids_ok s \<Longrightarrow> ids_ok (say l m s)"
  by (simp add: ids_ok_def say_def)

lemma ids_ok_issue: "ids_ok s \<Longrightarrow> rp < next_id s \<Longrightarrow> ids_ok (issue rp c s)"
  by (simp add: ids_ok_def issue_def)

lemma ids_ok_settle: "ids_ok s \<Longrightarrow> pidx p < next_id s \<Longrightarrow> ids_ok (settle p st s)"
  by (auto simp: ids_ok_def settle_def)

lemma ids_ok_await: "ids_ok s \<Longrightarrow> kidx k < next_id s \<Longrightarrow> ids_ok (await p k s)"
  by (auto simp: ids_ok_def await_def split: option.splits)

lemma ids_ok_await_field: "ids_ok s \<Longrightarrow> kidx k < next_id s \<Longrightarrow> ids_ok (await_field f k s)"
  by (cases f) (auto simp: await_field_def ids_ok_await, auto simp: ids_ok_def)

lemma ids_ok_return_field: "ids_ok s \<Longrightarrow> rp < next_id s \<Longrightarrow> ids_ok (return_field rp f s)"
  by (auto simp: return_field_def ids_ok_await ids_ok_settle split: option.splits)

lemma ids_ok_listeners:
  "ids_ok s \<Longrightarrow> \<forall>l \<in> set ls. hok (snd l) (next_id s) \<Longrightarrow> ids_ok (s\<lparr>listeners := ls\<rparr>)"
  by (auto simp: ids_ok_def)

lemma ids_ok_timers:
  "ids_ok s \<Longrightarrow> \<forall>t \<in> set ts. fst t < next_id s \<Longrightarrow> ids_ok (s\<lparr>timers := ts\<rparr>)"
  by (auto simp: ids_ok_def)

lemma ids_ok_terminated_once:
  "ids_ok s \<Longrightarrow> \<forall>ob \<in> set obs. ob < next_id s \<Longrightarrow> ids_ok (s\<lparr>terminated_once := obs\<rparr>)"
  by (auto simp: ids_ok_def)

lemma ids_ok_microtasks:
  "ids_ok s \<Longrightarrow> set ms \<subseteq> set (microtasks s) \<Longrightarrow> ids_ok (s\<lparr>microtasks := ms\<rparr>)"
  by (auto simp: ids_ok_def)

lemma ids_okD:
  "ids_ok s \<Longrightarrow> l \<in> set (listeners s) \<Longrightarrow> hok (snd l) (next_id s)"
  "ids_ok s \<Longrightarrow> t \<in> set (timers s) \<Longrightarrow> fst t < next_id s"
  "ids_ok s \<Longrightarrow> ob \<in> set (terminated_once s) \<Longrightarrow> ob < next_id s"
  "ids_ok s \<Longrightarrow> m \<in> set (microtasks s) \<Longrightarrow> kidx (fst m) < next_id s"
  "ids_ok s \<Longrightarrow> w \<in> set (waiters s) \<Longrightarrow> kidx (snd w) < next_id s"
  "ids_ok s \<Longrightarrow> w \<in> set (waiters s) \<Longrightarrow> promises s (fst w) = None"
  "ids_ok s \<Longrightarrow> c \<in> set (commands s) \<Longrightarrow> fst c < next_id s"
  "ids_ok s \<Longrightarrow> next_id s \<le> pidx p \<Longrightarrow> promises s p = None"
  by (auto simp: ids_ok_def)

lemma listeners_prims [simp]:
  "listeners (bump s) = listeners s"
  "listeners (say l m s) = listeners s"
  "listeners (issue rp c s) = listeners s"
  "listeners (settle p st s) = listeners s"
  "listeners (await p k s) = listeners s"
  by (simp_all add: bump_def say_def issue_def settle_def await_def split: option.splits)

lemma timers_prims [simp]:
  "timers (bump s) = timers s"
  "timers (say l m s) = timers s"
  "timers (issue rp c s) = timers s"
  "timers (settle p st s) = timers s"
  "timers (await p k s) = timers s"
  by (simp_all add: bump_def say_def issue_def settle_def await_def split: option.splits)

lemmas ids_ok_intros = ids_ok_bump ids_ok_say ids_ok_issue ids_ok_settle ids_ok_await
  ids_ok_await_field ids_ok_return_field ids_ok_listeners ids_ok_timers ids_ok_terminated_once
  ids_ok_updI

lemma ids_ok_configureUA: "ids_ok s \<Longrightarrow> ids_ok (configureUA s)"
  by (auto simp: ids_ok_def configureUA_def Let_def intro: hok_mono)

lemma ids_ok_connect_body: "ids_ok s \<Longrightarrow> rp < next_id s \<Longrightarrow> ids_ok (connect_body rp s)"
  apply (simp add: connect_body_def Let_def split: option.splits)
  apply (intro conjI impI allI ids_ok_intros)
  apply (auto dest: ids_okD intro: hok_mono less_SucI)
  done

lemma ids_ok_connect: "ids_ok s \<Longrightarrow> rp < next_id s \<Longrightarrow> ids_ok (connect rp s)"
  apply (simp add: connect_def Let_def split: option.splits)
  apply (intro conjI impI allI ids_ok_intros ids_ok_connect_body ids_ok_configureUA)
  apply simp_all
  done

lemma ids_ok_connect_after_transport:
  "ids_ok s \<Longrightarrow> rp < next_id s \<Longrightarrow> ids_ok (connect_after_transport rp outcome s)"
  apply (simp add: connect_after_transport_def Let_def split: option.splits outcome.splits)
  apply (intro conjI impI allI ids_ok_intros)
  apply simp_all
  done

lemma ids_ok_disconnect_teardown:
  "ids_ok s \<Longrightarrow> rp < next_id s \<Longrightarrow> ids_ok (disconnect_teardown rp s)"
  apply (simp add: disconnect_teardown_def Let_def split: option.splits)
  apply (intro conjI impI allI ids_ok_intros)
  apply simp_all
  done

lemma ids_ok_disconnect: "ids_ok s \<Longrightarrow> rp < next_id s \<Longrightarrow> ids_ok (disconnect rp s)"
  apply (simp add: disconnect_def Let_def split: option.splits)
  apply (intro conjI impI allI ids_ok_intros ids_ok_disconnect_teardown)
  apply (auto dest: ids_okD intro: hok_mono less_SucI)
  done

lemma ids_ok_disconnect_after_ua:
  "ids_ok s \<Longrightarrow> rp < next_id s \<Longrightarrow> ids_ok (disconnect_after_ua rp outcome s)"
  apply (simp add: disconnect_after_ua_def Let_def split: option.splits outcome.splits)
  apply (intro conjI impI allI ids_ok_intros)
  apply (auto dest: ids_okD)
  done

lemma ids_ok_invite: "ids_ok s \<Longrightarrow> rp < next_id s \<Longrightarrow> ids_ok (invite rp ph sid s)"
  apply (simp add: invite_def split: option.splits)
  apply (intro conjI impI allI ids_ok_intros)
  apply simp_all
  done

lemma ids_ok_invite_after_registered:
  "ids_ok s \<Longrightarrow> rp < next_id s \<Longrightarrow> ids_ok (invite_after_registered rp ph sid outcome s)"
  apply (simp add: invite_after_registered_def Let_def split: option.splits outcome.splits)
  apply (intro conjI impI allI ids_ok_intros)
  apply (auto dest: ids_okD intro: less_SucI)
  done

lemma ids_ok_retry_attempt:
  "ids_ok s \<Longrightarrow> x < next_id s \<Longrightarrow> ids_ok (retry_attempt x k n s)"
  apply (simp add: retry_attempt_def Let_def)
  apply (intro conjI impI allI ids_ok_intros ids_ok_connect)
  apply (simp_all add: lt_connect)
  done

lemma ids_ok_retry_after_attempt:
  "ids_ok s \<Longrightarrow> x < next_id s \<Longrightarrow> ids_ok (retry_after_attempt x k n outcome s)"
  apply (simp add: retry_after_attempt_def Let_def split: outcome.splits)
  apply (intro conjI impI allI ids_ok_intros)
  apply (auto dest: ids_okD)
  done

lemma ids_ok_fire_timer: "ids_ok s \<Longrightarrow> ids_ok (fire_timer x s)"
  apply (simp add: fire_timer_def split: list.splits prod.splits)
  apply (intro conjI impI allI ids_ok_retry_attempt ids_ok_timers)
    apply (auto simp: filter_eq_Cons_iff dest: ids_okD)
  done

lemma ids_ok_reconnect: "ids_ok s \<Longrightarrow> rp < next_id s \<Longrightarrow> ids_ok (reconnect rp s)"
  apply (simp add: reconnect_def Let_def)
  apply (intro conjI impI allI ids_ok_intros ids_ok_retry_attempt)
  apply (simp_all add: bump_def lt_retry_attempt)
  done

lemma ids_ok_reconnect_after_retry:
  "ids_ok s \<Longrightarrow> rp < next_id s \<Longrightarrow> ids_ok (reconnect_after_retry rp outcome s)"
  apply (simp add: reconnect_after_retry_def split: outcome.splits)
  apply (intro conjI impI allI ids_ok_intros)
  apply simp_all
  done

lemma ids_ok_on_disconnected: "ids_ok s \<Longrightarrow> t < next_id s \<Longrightarrow> ids_ok (on_disconnected t e s)"
  apply (simp add: on_disconnected_def Let_def)
  apply (intro conjI impI allI ids_ok_intros ids_ok_disconnect)
  apply (simp_all add: lt_disconnect)
  done

lemma ids_ok_disconnected_after_disconnect:
  "ids_ok s \<Longrightarrow> t < next_id s \<Longrightarrow> ids_ok (disconnected_after_disconnect t e outcome s)"
  apply (simp add: disconnected_after_disconnect_def Let_def split: outcome.splits)
  apply (intro conjI impI allI ids_ok_intros ids_ok_reconnect)
  apply (simp_all add: lt_reconnect)
  done

lemma ids_ok_disconnected_after_reconnect:
  "ids_ok s \<Longrightarrow> t < next_id s \<Longrightarrow> ids_ok (disconnected_after_reconnect t e outcome s)"
  apply (simp add: disconnected_after_reconnect_def Let_def split: outcome.splits)
  apply (intro conjI impI allI ids_ok_intros)
  apply simp_all
  done

lemma ids_ok_handle:
  assumes "ids_ok s" and "hok h (next_id s)"
  shows "ids_ok (fst (handle h ev s))"
proof (cases h)
  case (HTransportCreated t)
  then show ?thesis using assms
    by (auto simp: Let_def say_def split: option.splits intro!: ids_ok_listeners dest: ids_okD)
       (auto simp: ids_ok_def)
next
  case (HConnected t)
  then show ?thesis using assms by (auto intro!: ids_ok_settle ids_ok_say)
next
  case (HDisconnected t)
  then show ?thesis using assms by (auto intro!: ids_ok_on_disconnected)
next
  case (HRegistered r)
  then show ?thesis using assms by (auto intro!: ids_ok_settle)
next
  case (HRegistrationFailed r)
  then show ?thesis using assms by (auto intro!: ids_ok_settle)
next
  case (HUnregistered u)
  then show ?thesis using assms by (auto intro!: ids_ok_settle)
next
  case HInvite
  then show ?thesis using assms
    by (auto simp: Let_def bump_def ids_ok_def intro: hok_mono less_SucI)
qed

lemma ids_ok_run_handlers:
  "ids_ok s \<Longrightarrow> \<forall>h \<in> set hs. hok h (next_id s) \<Longrightarrow> ids_ok (run_handlers hs ev s)"
proof (induction hs arbitrary: s)
  case Nil
  then show ?case by simp
next
  case (Cons h hs)
  obtain s1 threw where h: "handle h ev s = (s1, threw)" by (cases "handle h ev s")
  have ok: "ids_ok s1" using ids_ok_handle [of s h ev] Cons.prems h by simp
  have le: "next_id s \<le> next_id s1" using next_id_handle [of s h ev] h by simp
  have "\<forall>h \<in> set hs. hok h (next_id s1)" using Cons.prems le by (auto intro: hok_mono)
  then show ?case using Cons.IH [OF ok] ok h by simp
qed

lemma ids_ok_emit: "ids_ok s \<Longrightarrow> ids_ok (emit tg ev s)"
  unfolding emit_def
  apply (rule ids_ok_run_handlers)
   apply (rule ids_ok_listeners)
    apply (auto dest: ids_okD)
  done

lemma ids_ok_terminated: "ids_ok s \<Longrightarrow> ids_ok (terminated ob s)"
  by (auto simp: terminated_def split: option.splits intro!: ids_ok_terminated_once dest: ids_okD)

lemma ids_ok_reconfigure: "ids_ok s \<Longrightarrow> rp < next_id s \<Longrightarrow> ids_ok (reconfigure rp opts s)"
  apply (simp add: reconfigure_def Let_def)
  apply (intro conjI impI allI ids_ok_intros ids_ok_disconnect)
  apply (simp_all add: lt_disconnect)
  done

lemma ids_ok_reconfigure_after_disconnect:
  "ids_ok s \<Longrightarrow> rp < next_id s \<Longrightarrow> ids_ok (reconfigure_after_disconnect rp opts outcome s)"
  apply (simp add: reconfigure_after_disconnect_def Let_def split: outcome.splits sum.splits)
  apply (intro conjI impI allI ids_ok_intros ids_ok_connect)
  apply (simp_all add: lt_connect)
  done

lemma ids_ok_resume: "ids_ok s \<Longrightarrow> kidx k < next_id s \<Longrightarrow> ids_ok (resume k outcome s)"
  by (cases k)
     (auto simp: ids_ok_connect_body ids_ok_connect_after_transport ids_ok_disconnect_teardown
        ids_ok_disconnect_after_ua ids_ok_invite_after_registered
        ids_ok_reconfigure_after_disconnect ids_ok_reconnect_after_retry
        ids_ok_retry_after_attempt ids_ok_disconnected_after_disconnect
        ids_ok_disconnected_after_reconnect ids_ok_settle split: outcome.splits)

lemma ids_ok_step: "ids_ok s \<Longrightarrow> ids_ok (step s i)"
proof (cases i)
  case Tick
  assume ok: "ids_ok s"
  show ?thesis
  proof (cases "microtasks s")
    case Nil
    then show ?thesis using ok Tick by simp
  next
    case (Cons m ms)
    obtain k outcome where m: "m = (k, outcome)" by (cases m)
    have "ids_ok (s\<lparr>microtasks := ms\<rparr>)" using ok Cons by (auto intro: ids_ok_microtasks)
    moreover have "kidx k < next_id (s\<lparr>microtasks := ms\<rparr>)"
      using ok Cons m by (auto dest: ids_okD)
    ultimately show ?thesis using Tick Cons m by (simp add: ids_ok_resume)
  qed
qed (auto simp: ids_ok_connect ids_ok_disconnect ids_ok_invite ids_ok_reconfigure ids_ok_emit
       ids_ok_settle ids_ok_terminated ids_ok_fire_timer ids_ok_bump)

lemma ids_ok_initial: "ids_ok (initial w)"
  by (simp add: ids_ok_def initial_def)

lemma ids_ok_run: "ids_ok s \<Longrightarrow> ids_ok (run s ins)"
  unfolding run_def by (induction ins arbitrary: s) (auto simp: ids_ok_step)

lemma ids_ok_reachable: "ids_ok (run (initial w) ins)"
  by (simp add: ids_ok_run ids_ok_initial)

lemma run_Cons [simp]: "run s (i # ins) = run (step s i) ins"
  by (simp add: run_def)

lemma run_Nil [simp]: "run s [] = s"
  by (simp add: run_def)

lemma run_pending: "promises (run s ins) p = None \<Longrightarrow> promises s p = None"
  using run_any [of s ins] by (rule loc_pending)

lemma parked_not_runs: "parked j p k s \<Longrightarrow> \<not> runs j s i"
  by (cases i) (auto simp: parked_def split: list.splits)

lemma parked_loc:
  assumes "parked j p k s" and "loc (Some j) s s'" and "promises s' p = None"
  shows "parked j p k s'"
  unfolding parked_def
proof (intro conjI ballI impI)
  fix l assume "l \<in> set (listeners s')"
  then show "hidx (snd l) \<noteq> Some j" using assms(1,2) by (auto simp: parked_def loc_def)
next
  fix t assume "t \<in> set (timers s')"
  then show "fst t \<noteq> j" using assms(1,2) by (auto simp: parked_def loc_def)
next
  fix m assume m: "m \<in> set (microtasks s')"
  show "kidx (fst m) \<noteq> j"
  proof
    assume k: "kidx (fst m) = j"
    from assms(2) m k have "m \<in> set (microtasks s) \<or>
        (\<exists>q. (q, fst m) \<in> set (waiters s) \<and> promises s q = None \<and> promises s' q = Some (snd m))"
      by (simp add: loc_def)
    then show False
    proof
      assume "m \<in> set (microtasks s)"
      then show False using assms(1) k by (auto simp: parked_def)
    next
      assume "\<exists>q. (q, fst m) \<in> set (waiters s) \<and> promises s q = None \<and> promises s' q = Some (snd m)"
      then obtain q where q: "(q, fst m) \<in> set (waiters s)" "promises s' q = Some (snd m)" by blast
      then have "(q, fst m) = (p, k)" using assms(1) k by (auto simp: parked_def)
      then show False using q(2) assms(3) by simp
    qed
  qed
next
  fix w assume "w \<in> set (waiters s')" "kidx (snd w) = j"
  then show "w = (p, k)" using assms(1,2) by (auto simp: parked_def loc_def)
qed

lemma parked_run:
  "j < next_id s \<Longrightarrow> parked j p k s \<Longrightarrow> promises (run s ins) p = None \<Longrightarrow>
   parked j p k (run s ins) \<and> loc (Some j) s (run s ins)"
proof (induction ins arbitrary: s)
  case Nil
  then show ?case by (simp add: loc_refl)
next
  case (Cons i ins)
  have nr: "\<not> runs j s i" using Cons.prems(2) by (rule parked_not_runs)
  have l: "loc (Some j) s (step s i)"
    using Cons.prems(1) nr by (intro loc_step) (simp_all add: below_def)
  have pend: "promises (step s i) p = None" using Cons.prems(3) by (auto dest: run_pending)
  have pk: "parked j p k (step s i)" using Cons.prems(2) l pend by (rule parked_loc)
  have lt: "j < next_id (step s i)" using Cons.prems(1) loc_next [OF l] by simp
  from Cons.IH [OF lt pk] Cons.prems(3)
  have "parked j p k (run (step s i) ins) \<and> loc (Some j) (step s i) (run (step s i) ins)" by simp
  then show ?case using l by (auto intro: loc_trans)
qed

lemma simple_prims [simp]:
  "waiters (bump s) = waiters s"
  "waiters (say l m s) = waiters s"
  "waiters (issue rp c s) = waiters s"
  "microtasks (bump s) = microtasks s"
  "microtasks (say l m s) = microtasks s"
  "microtasks (issue rp c s) = microtasks s"
  "commands (bump s) = commands s"
  "commands (say l m s) = commands s"
  "commands (issue rp c s) = commands s @ [(rp, c)]"
  "commands (settle p st s) = commands s"
  "commands (await p k s) = commands s"
  "commands (await_field f k s) = commands s"
  "commands (return_field rp f s) = commands s"
  "promises (bump s) = promises s"
  "promises (say l m s) = promises s"
  "promises (issue rp c s) = promises s"
  "promises (await p k s) = promises s"
  "promises (await_field f k s) = promises s"
  "console (bump s) = console s"
  "console (say l m s) = console s @ [(l, m)]"
  "console (issue rp c s) = console s"
  "console (settle p st s) = console s"
  "console (await p k s) = console s"
  "console (await_field f k s) = console s"
  "console (return_field rp f s) = console s"
  by (simp_all add: bump_def say_def issue_def settle_def await_def await_field_def
        return_field_def split: option.splits)

lemma field_prims [simp]:
  "ua (bump s) = ua s"
  "ua (say l m s) = ua s"
  "ua (issue rp c s) = ua s"
  "ua (settle p st s) = ua s"
  "ua (await p k s) = ua s"
  "ua (await_field f k s) = ua s"
  "ua (return_field rp f s) = ua s"
  "registeredPromise (bump s) = registeredPromise s"
  "registeredPromise (say l m s) = registeredPromise s"
  "registeredPromise (issue rp c s) = registeredPromise s"
  "registeredPromise (settle p st s) = registeredPromise s"
  "registeredPromise (await p k s) = registeredPromise s"
  "registeredPromise (await_field f k s) = registeredPromise s"
  "registeredPromise (return_field rp f s) = registeredPromise s"
  "unregisteredPromise (bump s) = unregisteredPromise s"
  "unregisteredPromise (say l m s) = unregisteredPromise s"
  "unregisteredPromise (issue rp c s) = unregisteredPromise s"
  "unregisteredPromise (settle p st s) = unregisteredPromise s"
  "unregisteredPromise (await p k s) = unregisteredPromise s"
  "unregisteredPromise (await_field f k s) = unregisteredPromise s"
  "unregisteredPromise (return_field rp f s) = unregisteredPromise s"
  "registered (bump s) = registered s"
  "registered (say l m s) = registered s"
  "registered (issue rp c s) = registered s"
  "registered (settle p st s) = registered s"
  "registered (await p k s) = registered s"
  "registered (await_field f k s) = registered s"
  "registered (return_field rp f s) = registered s"
  "isReconnecting (bump s) = isReconnecting s"
  "isReconnecting (say l m s) = isReconnecting s"
  "isReconnecting (issue rp c s) = isReconnecting s"
  "isReconnecting (settle p st s) = isReconnecting s"
  "isReconnecting (await p k s) = isReconnecting s"
  "isReconnecting (await_field f k s) = isReconnecting s"
  "isReconnecting (return_field rp f s) = isReconnecting s"
  by (simp_all add: bump_def say_def issue_def settle_def await_def await_field_def
        return_field_def split: option.splits)

lemma configureUA_fields [simp]:
  "registeredPromise (configureUA s) = registeredPromise s"
  "unregisteredPromise (configureUA s) = unregisteredPromise s"
  "registered (configureUA s) = registered s"
  "isReconnecting (configureUA s) = isReconnecting s"
  "promises (configureUA s) = promises s"
  "commands (configureUA s) = commands s"
  "console (configureUA s) = console s"
  "waiters (configureUA s) = waiters s"
  "microtasks (configureUA s) = microtasks s"
  "timers (configureUA s) = timers s"
  "ua (configureUA s) = Some (next_id s)"
  "listeners (configureUA s) = listeners s @
     [(OnUa (next_id s), HTransportCreated (Suc (next_id s))), (OnUa (next_id s), HInvite)]"
  by (simp_all add: configureUA_def Let_def)

lemma await_pending:
  "promises s p = None \<Longrightarrow> waiters (await p k s) = waiters s @ [(p, k)]"
  "promises s p = None \<Longrightarrow> microtasks (await p k s) = microtasks s"
  by (simp_all add: await_def)

lemma await_settled:
  "promises s p = Some out \<Longrightarrow> waiters (await p k s) = waiters s"
  "promises s p = Some out \<Longrightarrow> microtasks (await p k s) = microtasks s @ [(k, out)]"
  by (simp_all add: await_def)

lemma disconnectPromise_reachable: "disconnectPromise (run (initial w) ins) = None"
  using run_any [of "initial w" ins] by (simp add: loc_def initial_def)

lemma disconnect_registered:
  assumes ok: "ids_ok s" and dp: "disconnectPromise s = None"
    and ua: "ua s = Some u" and reg: "registered s"
  defines "s' \<equiv> step s CallDisconnect"
  shows "commands s' = commands s @ [(next_id s, Unregister u)]"
    and "parked (next_id s) (PUnreg (Suc (next_id s))) (DisconnectAfterUnreg (next_id s)) s'"
    and "promises s' = promises s"
    and "next_id s' = Suc (Suc (next_id s))"
    and "listeners s' = listeners s @ [(OnUa u, HUnregistered (Suc (next_id s)))]"
    and "waiters s' = waiters s @ [(PUnreg (Suc (next_id s)), DisconnectAfterUnreg (next_id s))]"
    and "microtasks s' = microtasks s"
    and "timers s' = timers s"
proof -
  have fresh: "promises s (PUnreg (Suc (next_id s))) = None"
    using ok by (simp add: ids_ok_def)
  have eq: "s' = await (PUnreg (Suc (next_id s))) (DisconnectAfterUnreg (next_id s))
            (issue (next_id s) (Unregister u)
              (say Log TryingToUnregister
                ((bump (bump s\<lparr>registeredPromise := None\<rparr>))
                   \<lparr>unregisteredPromise := Some (PUnreg (Suc (next_id s))),
                    listeners := listeners s @ [(OnUa u, HUnregistered (Suc (next_id s)))]\<rparr>)))"
    using dp ua reg by (simp add: s'_def disconnect_def Let_def bump_def)
  show "commands s' = commands s @ [(next_id s, Unregister u)]"
    by (simp add: eq)
  show "promises s' = promises s" by (simp add: eq)
  show "next_id s' = Suc (Suc (next_id s))" by (simp add: eq)
  show "listeners s' = listeners s @ [(OnUa u, HUnregistered (Suc (next_id s)))]" by (simp add: eq)
  show w: "waiters s' = waiters s @ [(PUnreg (Suc (next_id s)), DisconnectAfterUnreg (next_id s))]"
    using fresh by (simp add: eq await_pending)
  show m: "microtasks s' = microtasks s"
    using fresh by (simp add: eq await_pending)
  show t: "timers s' = timers s" by (simp add: eq)
  show "parked (next_id s) (PUnreg (Suc (next_id s))) (DisconnectAfterUnreg (next_id s)) s'"
    unfolding parked_def w m t
    using ok by (fastforce simp add: eq hok_def dest: ids_okD split: option.splits)
qed

lemma listening_loc:
  assumes "listening j h s" and "loc (Some j) s s'"
  shows "listening j h s'"
  unfolding listening_def
proof (intro conjI ballI impI)
  fix l assume "l \<in> set (listeners s')" "hidx (snd l) = Some j"
  then show "snd l = h" using assms by (auto simp: listening_def loc_def)
next
  fix t assume "t \<in> set (timers s')"
  then show "fst t \<noteq> j" using assms by (auto simp: listening_def loc_def)
next
  fix m assume m: "m \<in> set (microtasks s')"
  show "kidx (fst m) \<noteq> j"
  proof
    assume "kidx (fst m) = j"
    with assms(2) m have "m \<in> set (microtasks s) \<or>
        (\<exists>q. (q, fst m) \<in> set (waiters s) \<and> promises s q = None \<and> promises s' q = Some (snd m))"
      by (simp add: loc_def)
    then show False using assms(1) \<open>kidx (fst m) = j\<close> by (force simp: listening_def)
  qed
next
  fix w assume "w \<in> set (waiters s')"
  then show "kidx (snd w) \<noteq> j" using assms by (auto simp: listening_def loc_def)
qed

lemma listening_run:
  "j < next_id s \<Longrightarrow> listening j h s \<Longrightarrow>
   \<forall>tg ev. Emit tg ev \<in> set ins \<longrightarrow> \<not> listens h ev \<Longrightarrow>
   listening j h (run s ins) \<and> loc (Some j) s (run s ins)"
proof (induction ins arbitrary: s)
  case Nil
  then show ?case by (simp add: loc_refl)
next
  case (Cons i ins)
  have nr: "\<not> runs j s i"
  proof (cases i)
    case (Emit tg ev)
    then have "\<not> listens h ev" using Cons.prems(3) by simp
    then show ?thesis using Cons.prems(2) Emit by (auto simp: listening_def)
  qed (use Cons.prems(2) in \<open>auto simp: listening_def split: list.splits\<close>)
  have l: "loc (Some j) s (step s i)"
    using Cons.prems(1) nr by (intro loc_step) (simp_all add: below_def)
  have pk: "listening j h (step s i)" using Cons.prems(2) l by (rule listening_loc)
  have lt: "j < next_id (step s i)" using Cons.prems(1) loc_next [OF l] by simp
  from Cons.IH [OF lt pk] Cons.prems(3)
  have "listening j h (run (step s i) ins) \<and> loc (Some j) (step s i) (run (step s i) ins)" by simp
  then show ?case using l by (auto intro: loc_trans)
qed

lemma disconnect_registered_listening:
  assumes ok: "ids_ok s" and dp: "disconnectPromise s = None"
    and ua: "ua s = Some u" and reg: "registered s"
  shows "listening (Suc (next_id s)) (HUnregistered (Suc (next_id s))) (step s CallDisconnect)"
  unfolding listening_def
  using ok disconnect_registered(5,6,7,8) [OF ok dp ua reg]
  by (fastforce simp add: hok_def dest: ids_okD split: option.splits)

text \<open>Settling the result promise of an activation.\<close>

lemma settle_parts:
  "listeners (settle p out s) = listeners s"
  "timers (settle p out s) = timers s"
  "set (waiters (settle p out s)) \<subseteq> set (waiters s)"
  "m \<in> set (microtasks (settle p out s)) \<Longrightarrow>
     m \<in> set (microtasks s) \<or> (\<exists>k. (p, k) \<in> set (waiters s) \<and> m = (k, out))"
  by (auto simp: settle_def split: if_splits)

lemma tearing_down_loc:
  assumes "tearing_down j d s" and "loc (Some j) s s'"
  shows "tearing_down j d s'"
  unfolding tearing_down_def
proof (intro conjI ballI impI)
  fix l assume "l \<in> set (listeners s')"
  then show "hidx (snd l) \<noteq> Some j" using assms by (auto simp: tearing_down_def loc_def)
next
  fix t assume "t \<in> set (timers s')"
  then show "fst t \<noteq> j" using assms by (auto simp: tearing_down_def loc_def)
next
  fix m assume m: "m \<in> set (microtasks s')" and k: "kidx (fst m) = j"
  with assms(2) have "m \<in> set (microtasks s) \<or>
      (\<exists>q. (q, fst m) \<in> set (waiters s) \<and> promises s q = None \<and> promises s' q = Some (snd m))"
    by (simp add: loc_def)
  then show "fst m = DisconnectAfterUa j" using assms(1) k by (force simp: tearing_down_def)
next
  fix w assume "w \<in> set (waiters s')" "kidx (snd w) = j"
  then show "w = (PEngine d, DisconnectAfterUa j)"
    using assms by (auto simp: tearing_down_def loc_def)
qed

lemma commands_disconnect_after_ua [simp]:
  "commands (disconnect_after_ua rp out s) = commands s"
  by (simp add: disconnect_after_ua_def Let_def split: outcome.splits option.splits)

lemma tearing_down_own:
  assumes td: "tearing_down j d s" and mt: "microtasks s = (DisconnectAfterUa j, out) # ms"
  shows "tearing_down j d (disconnect_after_ua j out (s\<lparr>microtasks := ms\<rparr>))"
proof -
  let ?s2 = "s\<lparr>microtasks := ms\<rparr>"
  have td2: "tearing_down j d ?s2" using td mt by (auto simp: tearing_down_def)
  have own: "tearing_down j d (settle (PResult j) o' s1)" if "tearing_down j d s1" for o' s1
    unfolding tearing_down_def
    using that settle_parts(3) [of "PResult j" o' s1] settle_parts(4) [of _ "PResult j" o' s1]
    by (fastforce simp add: tearing_down_def settle_parts(1,2))
  show ?thesis
  proof (cases out)
    case (Rejected e)
    then show ?thesis using own [OF td2] by (simp add: disconnect_after_ua_def)
  next
    case (Resolved v)
    show ?thesis
    proof (cases "ua s")
      case None
      have "tearing_down j d (say Log DisconnectedMsg ?s2)"
        using td2 by (simp add: tearing_down_def say_def)
      then show ?thesis using Resolved None own
        by (simp add: disconnect_after_ua_def Let_def say_def)
    next
      case (Some u)
      have "tearing_down j d ((say Log DisconnectedMsg ?s2)
              \<lparr>listeners := filter (\<lambda>l. fst l \<noteq> OnTransport u \<and> fst l \<noteq> OnUa u)
                   (listeners (say Log DisconnectedMsg ?s2)),
                ua := None, unregisteredPromise := None\<rparr>)"
        using td2 by (simp add: tearing_down_def say_def)
      then show ?thesis using Resolved Some own
        by (simp add: disconnect_after_ua_def Let_def say_def)
    qed
  qed
qed

lemma tearing_down_step:
  assumes lt: "j < next_id s" and td: "tearing_down j d s"
  shows "tearing_down j d (step s i) \<and>
         filter (\<lambda>c. fst c = j) (commands (step s i)) = filter (\<lambda>c. fst c = j) (commands s) \<and>
         j < next_id (step s i)"
proof (cases "runs j s i")
  case False
  have l: "loc (Some j) s (step s i)"
    using lt False by (intro loc_step) (simp_all add: below_def)
  then show ?thesis using td lt loc_next [OF l] by (auto intro: tearing_down_loc simp: loc_def)
next
  case True
  then obtain out ms where i: "i = Tick" and mt: "microtasks s = (DisconnectAfterUa j, out) # ms"
    using td by (cases i) (auto simp: tearing_down_def split: list.splits)
  have "next_id s \<le> next_id (step s i)" using step_any [of s i] by (rule loc_next)
  then show ?thesis using tearing_down_own [OF td mt] i mt lt by simp
qed

lemma tearing_down_run:
  "j < next_id s \<Longrightarrow> tearing_down j d s \<Longrightarrow>
   filter (\<lambda>c. fst c = j) (commands (run s ins)) = filter (\<lambda>c. fst c = j) (commands s)"
proof (induction ins arbitrary: s)
  case Nil
  then show ?case by simp
next
  case (Cons i ins)
  from tearing_down_step [OF Cons.prems, of i] Cons.IH [of "step s i"]
  show ?case by simp
qed

lemma no_fresh_commands:
  "ids_ok s \<Longrightarrow> filter (\<lambda>c. fst c = next_id s) (commands s) = []"
  by (auto simp: filter_empty_conv dest: ids_okD(7))

lemma disconnect_unregistered:
  assumes ok: "ids_ok s" and dp: "disconnectPromise s = None"
    and ua: "ua s = Some u" and reg: "\<not> registered s"
  defines "s' \<equiv> step s CallDisconnect"
  shows "commands s' = commands s @ [(next_id s, UaDisconnect u)]"
    and "tearing_down (next_id s) (Suc (next_id s)) s'"
    and "next_id s' = Suc (Suc (next_id s))"
proof -
  have fresh: "promises s (PEngine (Suc (next_id s))) = None"
    using ok by (simp add: ids_ok_def)
  have eq: "s' = await (PEngine (Suc (next_id s))) (DisconnectAfterUa (next_id s))
            (issue (next_id s) (UaDisconnect u)
              (bump (say Log UnregisteredMsg (bump s\<lparr>registeredPromise := None\<rparr>))))"
    using dp ua reg
    by (simp add: s'_def disconnect_def disconnect_teardown_def Let_def bump_def say_def)
  show "commands s' = commands s @ [(next_id s, UaDisconnect u)]"
    by (simp add: eq)
  show "next_id s' = Suc (Suc (next_id s))" by (simp add: eq)
  have w: "waiters s' = waiters s @ [(PEngine (Suc (next_id s)), DisconnectAfterUa (next_id s))]"
    using fresh by (simp add: eq await_pending)
  have m: "microtasks s' = microtasks s"
    using fresh by (simp add: eq await_pending)
  have t: "timers s' = timers s" by (simp add: eq)
  have l: "listeners s' = listeners s" by (simp add: eq)
  show "tearing_down (next_id s) (Suc (next_id s)) s'"
    unfolding tearing_down_def w m t l
    using ok by (fastforce simp add: hok_def dest: ids_okD split: option.splits)
qed


lemma registered_client_facts:
  "ua registered_client = Some 1"
  "registered registered_client"
  "next_id registered_client = 4"
  by code_simp+

lemma connecting_client_facts:
  "ua connecting_client = Some 1"
  "\<not> registered connecting_client"
  "next_id connecting_client = 4"
  by code_simp+


lemma connect_while_unregistering:
  assumes ok: "ids_ok s" and up: "unregisteredPromise s = Some up" and pend: "promises s up = None"
  defines "s' \<equiv> step s CallConnect"
  shows "console s' = console s @ (if ua s = None then [(Log, ConfiguringUa)] else []) @
            [(Error, CannotConnectWhileUnregistering)]"
    and "commands s' = commands s"
    and "promises s' = promises s"
    and "next_id s < next_id s'"
    and "parked (next_id s) up (ConnectAfterUnreg (next_id s)) s'"
proof -
  let ?s1 = "if ua s = None then configureUA (say Log ConfiguringUa (bump s)) else bump s"
  have eq: "s' = await up (ConnectAfterUnreg (next_id s))
                   (say Error CannotConnectWhileUnregistering ?s1)"
    using up unfolding s'_def by (simp add: connect_def Let_def)
  have p1: "promises ?s1 = promises s"
    by simp
  show "console s' = console s @ (if ua s = None then [(Log, ConfiguringUa)] else []) @
            [(Error, CannotConnectWhileUnregistering)]"
    by (simp add: eq)
  show "commands s' = commands s" by (simp add: eq)
  show "promises s' = promises s" by (simp add: eq p1)
  show "next_id s < next_id s'" by (simp add: eq)
  have pend1: "promises (say Error CannotConnectWhileUnregistering ?s1) up = None"
    using pend p1 by simp
  have w: "waiters s' = waiters s @ [(up, ConnectAfterUnreg (next_id s))]"
    unfolding eq await_pending(1) [OF pend1] by simp
  have m: "microtasks s' = microtasks s"
    unfolding eq await_pending(2) [OF pend1] by simp
  have t: "timers s' = timers s" by (simp add: eq)
  have l: "set (listeners s') \<subseteq> set (listeners s) \<union>
             {(OnUa (Suc (next_id s)), HTransportCreated (Suc (Suc (next_id s)))),
              (OnUa (Suc (next_id s)), HInvite)}"
    by (auto simp add: eq)
  show "parked (next_id s) up (ConnectAfterUnreg (next_id s)) s'"
    unfolding parked_def w m t
    using ok l by (fastforce simp add: hok_def dest: ids_okD split: option.splits)
qed


lemma adopting_loc:
  assumes a: "adopting j r s" and l: "loc (Some j) s s'"
  shows "adopting j r s'"
  unfolding adopting_def
proof (intro conjI ballI impI)
  fix l' assume "l' \<in> set (listeners s')"
  then show "hidx (snd l') \<noteq> Some j" using a l by (auto simp: adopting_def loc_def)
next
  fix t assume "t \<in> set (timers s')"
  then show "fst t \<noteq> j" using a l by (auto simp: adopting_def loc_def)
next
  fix m assume m: "m \<in> set (microtasks s')" and k: "kidx (fst m) = j"
  with l have "m \<in> set (microtasks s) \<or>
      (\<exists>q. (q, fst m) \<in> set (waiters s) \<and> promises s q = None \<and> promises s' q = Some (snd m))"
    by (simp add: loc_def)
  then have both: "fst m = Adopt j \<and> promises s' r = Some (snd m)"
  proof
    assume "m \<in> set (microtasks s)"
    then have "fst m = Adopt j \<and> promises s r = Some (snd m)" using a k by (auto simp: adopting_def)
    then show ?thesis using l by (auto dest: loc_stable)
  next
    assume "\<exists>q. (q, fst m) \<in> set (waiters s) \<and> promises s q = None \<and> promises s' q = Some (snd m)"
    then obtain q where q: "(q, fst m) \<in> set (waiters s)" "promises s' q = Some (snd m)" by blast
    then have "(q, fst m) = (r, Adopt j)" using a k by (auto simp: adopting_def)
    then show ?thesis using q(2) by simp
  qed
  show "fst m = Adopt j" and "promises s' r = Some (snd m)" using both by simp_all
next
  fix w' assume "w' \<in> set (waiters s')" "kidx (snd w') = j"
  then show "w' = (r, Adopt j)" using a l by (auto simp: adopting_def loc_def)
next
  have same: "promises s' (PResult j) = promises s (PResult j)" using l by (simp add: loc_def)
  from a have "promises s (PResult j) = None \<or> promises s (PResult j) = promises s r"
    by (simp add: adopting_def)
  then show "promises s' (PResult j) = None \<or> promises s' (PResult j) = promises s' r"
  proof
    assume "promises s (PResult j) = None"
    then show ?thesis using same by simp
  next
    assume e: "promises s (PResult j) = promises s r"
    show ?thesis
    proof (cases "promises s r")
      case None
      then show ?thesis using e same by simp
    next
      case (Some out)
      then have "promises s' r = Some out" using l by (auto dest: loc_stable)
      then show ?thesis using e same Some by simp
    qed
  qed
qed

lemma adopting_own:
  assumes ok: "ids_ok s" and a: "adopting j r s" and mt: "microtasks s = (Adopt j, out) # ms"
  shows "adopting j r (settle (PResult j) out (s\<lparr>microtasks := ms\<rparr>))"
proof -
  let ?s2 = "s\<lparr>microtasks := ms\<rparr>"
  have r: "promises s r = Some out" using a mt by (auto simp: adopting_def)
  have nw: "\<not> (\<exists>k. (PResult j, k) \<in> set (waiters s) \<and> kidx k = j)"
  proof
    assume "\<exists>k. (PResult j, k) \<in> set (waiters s) \<and> kidx k = j"
    then obtain k where k: "(PResult j, k) \<in> set (waiters s)" "kidx k = j" by blast
    then have "(PResult j, k) = (r, Adopt j)" using a by (auto simp: adopting_def)
    moreover have "promises s (PResult j) = None" using ok k(1) by (auto dest: ids_okD(6))
    ultimately show False using r by simp
  qed
  show ?thesis
    unfolding adopting_def
  proof (intro conjI ballI impI)
    fix l assume "l \<in> set (listeners (settle (PResult j) out ?s2))"
    then show "hidx (snd l) \<noteq> Some j" using a by (auto simp: adopting_def)
  next
    fix t assume "t \<in> set (timers (settle (PResult j) out ?s2))"
    then show "fst t \<noteq> j" using a by (auto simp: adopting_def)
  next
    fix m assume m: "m \<in> set (microtasks (settle (PResult j) out ?s2))" and k: "kidx (fst m) = j"
    from settle_parts(4) [OF m] nw k have "m \<in> set ms" by auto
    then have "fst m = Adopt j \<and> promises s r = Some (snd m)"
      using a mt k by (auto simp: adopting_def)
    then show "fst m = Adopt j" and "promises (settle (PResult j) out ?s2) r = Some (snd m)"
      by (auto simp: settle_def)
  next
    fix w' assume "w' \<in> set (waiters (settle (PResult j) out ?s2))" "kidx (snd w') = j"
    then show "w' = (r, Adopt j)"
      using a settle_parts(3) [of "PResult j" out ?s2] by (auto simp: adopting_def)
  next
    show "promises (settle (PResult j) out ?s2) (PResult j) = None \<or>
          promises (settle (PResult j) out ?s2) (PResult j) =
          promises (settle (PResult j) out ?s2) r"
      using a r by (auto simp: settle_def adopting_def)
  qed
qed

lemma adopting_step:
  assumes ok: "ids_ok s" and lt: "j < next_id s" and a: "adopting j r s"
  shows "adopting j r (step s i) \<and>
         filter (\<lambda>c. fst c = j) (commands (step s i)) = filter (\<lambda>c. fst c = j) (commands s)"
proof (cases "runs j s i")
  case False
  have l: "loc (Some j) s (step s i)"
    using lt False by (intro loc_step) (simp_all add: below_def)
  then show ?thesis using a by (auto intro: adopting_loc simp: loc_def)
next
  case True
  then obtain out ms where i: "i = Tick" and mt: "microtasks s = (Adopt j, out) # ms"
    using a by (cases i) (auto simp: adopting_def split: list.splits)
  show ?thesis using adopting_own [OF ok a mt] i mt by simp
qed

lemma adopting_run:
  "ids_ok s \<Longrightarrow> j < next_id s \<Longrightarrow> adopting j r s \<Longrightarrow>
   adopting j r (run s ins) \<and>
   filter (\<lambda>c. fst c = j) (commands (run s ins)) = filter (\<lambda>c. fst c = j) (commands s)"
proof (induction ins arbitrary: s)
  case Nil
  then show ?case by simp
next
  case (Cons i ins)
  have ok: "ids_ok (step s i)" using Cons.prems(1) by (rule ids_ok_step)
  have lt: "j < next_id (step s i)"
    using Cons.prems(2) loc_next [OF step_any, of s i] by simp
  from adopting_step [OF Cons.prems, of i] Cons.IH [OF ok lt]
  show ?case by simp
qed

lemma connect_existing:
  assumes ok: "ids_ok s" and r: "registeredPromise s = Some r" and u: "unregisteredPromise s = None"
  defines "s' \<equiv> step s CallConnect"
  shows "registeredPromise s' = Some r"
    and "commands s' = commands s"
    and "ua s \<noteq> None \<longrightarrow> s' = await r (Adopt (next_id s)) (bump s)"
    and "next_id s < next_id s'"
    and "adopting (next_id s) r s'"
proof -
  let ?s1 = "if ua s = None then configureUA (say Log ConfiguringUa (bump s)) else bump s"
  have eq: "s' = await r (Adopt (next_id s)) ?s1"
    using r u unfolding s'_def by (simp add: connect_def connect_body_def Let_def)
  show "registeredPromise s' = Some r" using r by (simp add: eq)
  show "commands s' = commands s" by (simp add: eq)
  show "ua s \<noteq> None \<longrightarrow> s' = await r (Adopt (next_id s)) (bump s)" by (simp add: eq)
  show "next_id s < next_id s'" by (simp add: eq)
  have p: "promises s' = promises s" by (simp add: eq)
  have fresh: "promises s (PResult (next_id s)) = None" using ok by (simp add: ids_ok_def)
  have t: "timers s' = timers s" by (simp add: eq)
  have l: "set (listeners s') \<subseteq> set (listeners s) \<union>
             {(OnUa (Suc (next_id s)), HTransportCreated (Suc (Suc (next_id s)))),
              (OnUa (Suc (next_id s)), HInvite)}"
    by (auto simp add: eq)
  show "adopting (next_id s) r s'"
  proof (cases "promises s r")
    case None
    then have p1: "promises ?s1 r = None" by simp
    have w: "waiters s' = waiters s @ [(r, Adopt (next_id s))]"
      unfolding eq await_pending(1) [OF p1] by simp
    have m: "microtasks s' = microtasks s"
      unfolding eq await_pending(2) [OF p1] by simp
    show ?thesis
      unfolding adopting_def w m t p
      using ok l fresh by (fastforce simp add: hok_def dest: ids_okD split: option.splits)
  next
    case (Some out)
    then have p1: "promises ?s1 r = Some out" by simp
    have w: "waiters s' = waiters s"
      unfolding eq await_settled(1) [OF p1] by simp
    have m: "microtasks s' = microtasks s @ [(Adopt (next_id s), out)]"
      unfolding eq await_settled(2) [OF p1] by simp
    show ?thesis
      unfolding adopting_def w m t p
      using ok l fresh Some by (fastforce simp add: hok_def dest: ids_okD split: option.splits)
  qed
qed

text \<open>
  C1, amended.  In every reachable state with a registration future and no
  unregistration pending, \<open>connect\<close> starts nothing: the future stays in place, no
  command is issued (by the call or by any of its continuations, in every run), with an
  engine instance present the whole effect of the call is to adopt the future, and the
  caller's result is either pending or settled exactly as that future is.  (What the
  caller that started the cycle gets is not covered: it returns whichever registration
  future is current when its wait for the transport ends.)
\<close>

theorem connect_returns_existing_registration:
  assumes s: "s = run (initial w) history"
    and r: "registeredPromise s = Some r" and u: "unregisteredPromise s = None"
  shows "registeredPromise (step s CallConnect) = Some r \<and>
         commands (step s CallConnect) = commands s \<and>
         (ua s \<noteq> None \<longrightarrow> step s CallConnect = await r (Adopt (next_id s)) (bump s)) \<and>
         (\<forall>ins. filter (\<lambda>c. fst c = next_id s) (commands (run (step s CallConnect) ins)) = [] \<and>
            (promises (run (step s CallConnect) ins) (PResult (next_id s)) = None \<or>
             promises (run (step s CallConnect) ins) (PResult (next_id s)) =
               promises (run (step s CallConnect) ins) r))"
proof -
  have ok: "ids_ok s" using s by (simp add: ids_ok_reachable)
  note c = connect_existing [OF ok r u]
  have ok': "ids_ok (step s CallConnect)" using ok by (rule ids_ok_step)
  have "filter (\<lambda>c. fst c = next_id s) (commands (run (step s CallConnect) ins)) = [] \<and>
            (promises (run (step s CallConnect) ins) (PResult (next_id s)) = None \<or>
             promises (run (step s CallConnect) ins) (PResult (next_id s)) =
               promises (run (step s CallConnect) ins) r)" for ins
    using adopting_run [OF ok' c(4) c(5), of ins] c(2) no_fresh_commands [OF ok]
    by (simp add: adopting_def)
  then show ?thesis using c(1,2,3) by blast
qed

lemma sess_ok_sview: "sess_ok s \<Longrightarrow> sview s' = sview s \<Longrightarrow> sess_ok s'"
  by (simp add: sview_def sess_ok_def)

lemma registry_prims [simp]:
  "sessions (bump s) = sessions s"
  "sessions (say l m s) = sessions s"
  "sessions (issue rp c s) = sessions s"
  "sessions (settle p st s) = sessions s"
  "sessions (await p k s) = sessions s"
  "sessions (await_field f k s) = sessions s"
  "sessions (return_field rp f s) = sessions s"
  "session_objs (bump s) = session_objs s"
  "session_objs (say l m s) = session_objs s"
  "session_objs (issue rp c s) = session_objs s"
  "session_objs (settle p st s) = session_objs s"
  "session_objs (await p k s) = session_objs s"
  "session_objs (await_field f k s) = session_objs s"
  "session_objs (return_field rp f s) = session_objs s"
  "terminated_once (bump s) = terminated_once s"
  "terminated_once (say l m s) = terminated_once s"
  "terminated_once (issue rp c s) = terminated_once s"
  "terminated_once (settle p st s) = terminated_once s"
  "terminated_once (await p k s) = terminated_once s"
  "terminated_once (await_field f k s) = terminated_once s"
  "terminated_once (return_field rp f s) = terminated_once s"
  by (simp_all add: bump_def say_def issue_def settle_def await_def await_field_def
        return_field_def split: option.splits)

lemma sview_prims [simp]:
  "sview (bump s) = sview s"
  "sview (say l m s) = sview s"
  "sview (issue rp c s) = sview s"
  "sview (settle p st s) = sview s"
  "sview (await p k s) = sview s"
  "sview (await_field f k s) = sview s"
  "sview (return_field rp f s) = sview s"
  "sview (configureUA s) = sview s"
  by (simp_all add: sview_def configureUA_def Let_def)

lemma sview_upd [simp]:
  "sview (s\<lparr>registeredPromise := a\<rparr>) = sview s"
  "sview (s\<lparr>unregisteredPromise := a\<rparr>) = sview s"
  "sview (s\<lparr>transportConnectedPromise := a\<rparr>) = sview s"
  "sview (s\<lparr>registered := b\<rparr>) = sview s"
  "sview (s\<lparr>isReconnecting := b\<rparr>) = sview s"
  "sview (s\<lparr>options := w\<rparr>) = sview s"
  "sview (s\<lparr>ua := u\<rparr>) = sview s"
  "sview (s\<lparr>listeners := ls\<rparr>) = sview s"
  "sview (s\<lparr>timers := ts\<rparr>) = sview s"
  "sview (s\<lparr>microtasks := ms\<rparr>) = sview s"
  by (simp_all add: sview_def)

lemma sview_connect_body [simp]: "sview (connect_body rp s) = sview s"
  by (simp add: connect_body_def Let_def split: option.splits)

lemma sview_connect [simp]: "sview (connect rp s) = sview s"
  by (simp add: connect_def Let_def split: option.splits)

lemma sview_connect_after_transport [simp]: "sview (connect_after_transport rp out s) = sview s"
  by (simp add: connect_after_transport_def split: option.splits outcome.splits)

lemma sview_disconnect_teardown [simp]: "sview (disconnect_teardown rp s) = sview s"
  by (simp add: disconnect_teardown_def Let_def split: option.splits)

lemma sview_disconnect [simp]: "sview (disconnect rp s) = sview s"
  by (simp add: disconnect_def Let_def split: option.splits)

lemma sview_disconnect_after_ua [simp]: "sview (disconnect_after_ua rp out s) = sview s"
  by (simp add: disconnect_after_ua_def Let_def split: option.splits outcome.splits)

lemma sview_invite [simp]: "sview (invite rp ph sid s) = sview s"
  by (simp add: invite_def split: option.splits)

lemma sview_retry_attempt [simp]: "sview (retry_attempt x k n s) = sview s"
  by (simp add: retry_attempt_def Let_def)

lemma sview_retry_after_attempt [simp]: "sview (retry_after_attempt x k n out s) = sview s"
  by (simp add: retry_after_attempt_def Let_def split: outcome.splits)

lemma sview_fire_timer [simp]: "sview (fire_timer x s) = sview s"
  by (simp add: fire_timer_def split: list.splits prod.splits)

lemma sview_reconnect [simp]: "sview (reconnect rp s) = sview s"
  by (simp add: reconnect_def Let_def)

lemma sview_reconnect_after_retry [simp]: "sview (reconnect_after_retry rp out s) = sview s"
  by (simp add: reconnect_after_retry_def split: outcome.splits)

lemma sview_on_disconnected [simp]: "sview (on_disconnected t e s) = sview s"
  by (simp add: on_disconnected_def Let_def)

lemma sview_disconnected_after_disconnect [simp]:
  "sview (disconnected_after_disconnect t e out s) = sview s"
  by (simp add: disconnected_after_disconnect_def Let_def split: outcome.splits)

lemma sview_disconnected_after_reconnect [simp]:
  "sview (disconnected_after_reconnect t e out s) = sview s"
  by (simp add: disconnected_after_reconnect_def Let_def split: outcome.splits)

lemma sview_reconfigure [simp]: "sview (reconfigure rp opts s) = sview s"
  by (simp add: reconfigure_def Let_def)

lemma sview_reconfigure_after_disconnect [simp]:
  "sview (reconfigure_after_disconnect rp opts out s) = sview s"
  by (simp add: reconfigure_after_disconnect_def Let_def split: outcome.splits sum.splits)

text \<open>The three places that touch the registry.\<close>

lemma sess_ok_created:
  assumes ok: "ids_ok s" and so: "sess_ok s" and sid: "s_id se = sid"
    and v: "sview s' = ((sessions s)(sid \<mapsto> next_id s), (session_objs s)(next_id s \<mapsto> se),
                        terminated_once s @ [next_id s])"
  shows "sess_ok s'"
proof -
  have fresh: "next_id s \<notin> set (terminated_once s)" using ok by (auto dest: ids_okD(3))
  have f: "sessions s' = (sessions s)(sid \<mapsto> next_id s)"
    "session_objs s' = (session_objs s)(next_id s \<mapsto> se)"
    "terminated_once s' = terminated_once s @ [next_id s]"
    using v by (simp_all add: sview_def)
  show ?thesis
    using so fresh sid unfolding sess_ok_def f
    by (auto split: option.splits)
qed

lemma sess_ok_invite_after_registered:
  assumes ok: "ids_ok s" and so: "sess_ok s"
  shows "sess_ok (invite_after_registered rp ph sid out s)"
proof (cases "\<exists>v u. out = Resolved v \<and> ua s = Some u")
  case False
  then have "sview (invite_after_registered rp ph sid out s) = sview s"
    by (auto simp add: invite_after_registered_def split: outcome.splits option.splits)
  then show ?thesis using so by (rule sess_ok_sview [rotated])
next
  case True
  then obtain v u where o: "out = Resolved v" "ua s = Some u" by blast
  show ?thesis
    by (rule sess_ok_created [OF ok so, where sid = sid
          and se = "\<lparr>s_id = sid, s_media = w_media (options s), s_video = None\<rparr>"])
       (simp_all add: o invite_after_registered_def Let_def sview_def)
qed

lemma sess_ok_terminated: "sess_ok s \<Longrightarrow> sess_ok (terminated ob s)"
  unfolding sess_ok_def terminated_def
  by (auto split: option.splits)

lemma sess_ok_handle:
  assumes ok: "ids_ok s" and so: "sess_ok s"
  shows "sess_ok (fst (handle h ev s))"
proof (cases h)
  case HInvite
  show ?thesis
    by (rule sess_ok_created [OF ok so, where sid = "case ev of Invite i \<Rightarrow> i | _ \<Rightarrow> []"
          and se = "\<lparr>s_id = case ev of Invite i \<Rightarrow> i | _ \<Rightarrow> [],
                     s_media = w_media (options s), s_video = Some False\<rparr>"])
       (simp_all add: HInvite Let_def sview_def bump_def)
next
  case (HTransportCreated t)
  have "sview (fst (handle h ev s)) = sview s"
    using HTransportCreated by (simp add: Let_def split: option.splits)
  then show ?thesis using so by (rule sess_ok_sview [rotated])
next
  case (HConnected t)
  have "sview (fst (handle h ev s)) = sview s" using HConnected by simp
  then show ?thesis using so by (rule sess_ok_sview [rotated])
next
  case (HDisconnected t)
  have "sview (fst (handle h ev s)) = sview s" using HDisconnected by simp
  then show ?thesis using so by (rule sess_ok_sview [rotated])
next
  case (HRegistered r)
  have "sview (fst (handle h ev s)) = sview s" using HRegistered by simp
  then show ?thesis using so by (rule sess_ok_sview [rotated])
next
  case (HRegistrationFailed r)
  have "sview (fst (handle h ev s)) = sview s" using HRegistrationFailed by simp
  then show ?thesis using so by (rule sess_ok_sview [rotated])
next
  case (HUnregistered u)
  have "sview (fst (handle h ev s)) = sview s" using HUnregistered by simp
  then show ?thesis using so by (rule sess_ok_sview [rotated])
qed

lemma sess_ok_run_handlers:
  "ids_ok s \<Longrightarrow> sess_ok s \<Longrightarrow> \<forall>h \<in> set hs. hok h (next_id s) \<Longrightarrow>
   sess_ok (run_handlers hs ev s)"
proof (induction hs arbitrary: s)
  case Nil
  then show ?case by simp
next
  case (Cons h hs)
  obtain s1 threw where h: "handle h ev s = (s1, threw)" by (cases "handle h ev s")
  have ok: "ids_ok s1" using ids_ok_handle [of s h ev] Cons.prems h by simp
  have so: "sess_ok s1" using sess_ok_handle [of s h ev] Cons.prems h by simp
  have le: "next_id s \<le> next_id s1" using next_id_handle [of s h ev] h by simp
  have "\<forall>h \<in> set hs. hok h (next_id s1)" using Cons.prems le by (auto intro: hok_mono)
  then show ?case using Cons.IH [OF ok so] so h by simp
qed

lemma sess_ok_emit: "ids_ok s \<Longrightarrow> sess_ok s \<Longrightarrow> sess_ok (emit tg ev s)"
  unfolding emit_def
  apply (rule sess_ok_run_handlers)
    apply (rule ids_ok_listeners)
     apply (auto dest: ids_okD intro: sess_ok_sview)
  done

lemma sview_resume:
  "\<forall>rp ph sid. k \<noteq> InviteAfterRegistered rp ph sid \<Longrightarrow> sview (resume k out s) = sview s"
  by (cases k) (simp_all split: outcome.splits)

lemma sess_ok_resume: "ids_ok s \<Longrightarrow> sess_ok s \<Longrightarrow> sess_ok (resume k out s)"
proof (cases "\<exists>rp ph sid. k = InviteAfterRegistered rp ph sid")
  case True
  assume "ids_ok s" "sess_ok s"
  then show ?thesis using True by (auto simp add: sess_ok_invite_after_registered)
next
  case False
  assume "sess_ok s"
  moreover have "sview (resume k out s) = sview s" using False by (simp add: sview_resume)
  ultimately show ?thesis by (rule sess_ok_sview)
qed

lemma sview_step:
  "i \<in> {CallConnect, CallDisconnect} \<or> (\<exists>ph sid. i = CallInvite ph sid) \<or>
   (\<exists>opts. i = CallReconfigure opts) \<or> (\<exists>d. i = EngineDisconnected d) \<or>
   (\<exists>d e. i = EngineDisconnectFailed d e) \<or> (\<exists>x. i = Timer x) \<Longrightarrow>
   sview (step s i) = sview s"
  by auto

lemma sess_ok_step: "ids_ok s \<Longrightarrow> sess_ok s \<Longrightarrow> sess_ok (step s i)"
proof (cases i)
  case Tick
  assume ok: "ids_ok s" and so: "sess_ok s"
  show ?thesis
  proof (cases "microtasks s")
    case Nil
    then show ?thesis using so Tick by simp
  next
    case (Cons m ms)
    obtain k outcome where m: "m = (k, outcome)" by (cases m)
    have "ids_ok (s\<lparr>microtasks := ms\<rparr>)" using ok Cons by (auto intro: ids_ok_microtasks)
    moreover have "sess_ok (s\<lparr>microtasks := ms\<rparr>)"
      using so by (rule sess_ok_sview) simp
    ultimately show ?thesis using Tick Cons m by (simp add: sess_ok_resume)
  qed
next
  case (Emit tg ev)
  assume "ids_ok s" "sess_ok s"
  then show ?thesis using Emit by (simp add: sess_ok_emit)
next
  case (Terminated ob)
  assume "sess_ok s"
  then show ?thesis using Terminated by (simp add: sess_ok_terminated)
next
  case CallConnect
  assume "sess_ok s"
  then show ?thesis using sview_step [of i s] CallConnect by (auto intro: sess_ok_sview)
next
  case CallDisconnect
  assume "sess_ok s"
  then show ?thesis using sview_step [of i s] CallDisconnect by (auto intro: sess_ok_sview)
next
  case (CallInvite ph sid)
  assume "sess_ok s"
  then show ?thesis using sview_step [of i s] CallInvite by (auto intro: sess_ok_sview)
next
  case (CallReconfigure opts)
  assume "sess_ok s"
  then show ?thesis using sview_step [of i s] CallReconfigure by (auto intro: sess_ok_sview)
next
  case (EngineDisconnected d)
  assume "sess_ok s"
  then show ?thesis using sview_step [of i s] EngineDisconnected by (auto intro: sess_ok_sview)
next
  case (EngineDisconnectFailed d e)
  assume "sess_ok s"
  then show ?thesis using sview_step [of i s] EngineDisconnectFailed by (auto intro: sess_ok_sview)
next
  case (Timer x)
  assume "sess_ok s"
  then show ?thesis using sview_step [of i s] Timer by (auto intro: sess_ok_sview)
qed

lemma sess_ok_reachable: "sess_ok (run (initial w) ins)"
proof -
  have "ids_ok s \<Longrightarrow> sess_ok s \<Longrightarrow> sess_ok (run s ins)" for s
    by (induction ins arbitrary: s) (auto simp: ids_ok_step sess_ok_step)
  moreover have "sess_ok (initial w)" by (simp add: sess_ok_def initial_def)
  ultimately show ?thesis by (simp add: ids_ok_initial)
qed

lemma armed_sview:
  "sview s' = sview s \<Longrightarrow> terminated_once s' = terminated_once s"
  by (simp add: sview_def)

lemma armed_handle:
  "x \<in> set (terminated_once (fst (handle h ev s))) \<Longrightarrow>
   x \<in> set (terminated_once s) \<or> next_id s \<le> x"
proof (cases h)
  case HInvite
  assume "x \<in> set (terminated_once (fst (handle h ev s)))"
  then show ?thesis using HInvite by (auto simp: Let_def)
next
  case (HTransportCreated t)
  assume "x \<in> set (terminated_once (fst (handle h ev s)))"
  then show ?thesis using HTransportCreated by (auto simp: Let_def say_def split: option.splits)
next
  case (HDisconnected t)
  assume "x \<in> set (terminated_once (fst (handle h ev s)))"
  then show ?thesis
    using HDisconnected armed_sview [OF sview_on_disconnected] by simp
qed auto

lemma armed_run_handlers:
  "x \<in> set (terminated_once (run_handlers hs ev s)) \<Longrightarrow>
   x \<in> set (terminated_once s) \<or> next_id s \<le> x"
proof (induction hs arbitrary: s)
  case Nil
  then show ?case by simp
next
  case (Cons h hs)
  obtain s1 threw where h: "handle h ev s = (s1, threw)" by (cases "handle h ev s")
  have le: "next_id s \<le> next_id s1" using next_id_handle [of s h ev] h by simp
  have a1: "y \<in> set (terminated_once s1) \<Longrightarrow> y \<in> set (terminated_once s) \<or> next_id s \<le> y" for y
    using armed_handle [of y h ev s] h by simp
  show ?case
  proof (cases threw)
    case True
    then show ?thesis using Cons.prems h a1 by simp
  next
    case False
    then have "x \<in> set (terminated_once (run_handlers hs ev s1))" using Cons.prems h by simp
    from Cons.IH [OF this] a1 le show ?thesis by auto
  qed
qed

lemma armed_resume:
  "x \<in> set (terminated_once (resume k out s)) \<Longrightarrow>
   x \<in> set (terminated_once s) \<or> next_id s \<le> x"
proof (cases "\<exists>rp ph sid. k = InviteAfterRegistered rp ph sid")
  case True
  assume "x \<in> set (terminated_once (resume k out s))"
  then show ?thesis using True
    by (auto simp: invite_after_registered_def Let_def split: outcome.splits option.splits)
next
  case False
  assume "x \<in> set (terminated_once (resume k out s))"
  then show ?thesis using False armed_sview [OF sview_resume, of k out s] by simp
qed

lemma armed_step:
  "x \<in> set (terminated_once (step s i)) \<Longrightarrow>
   x \<in> set (terminated_once s) \<or> next_id s \<le> x"
proof (cases i)
  case Tick
  assume "x \<in> set (terminated_once (step s i))"
  then show ?thesis using Tick armed_resume [of x _ _ "s\<lparr>microtasks := ms\<rparr>" for ms]
    by (auto split: list.splits)
next
  case (Emit tg ev)
  assume "x \<in> set (terminated_once (step s i))"
  then show ?thesis using Emit armed_run_handlers [of x _ ev "s\<lparr>listeners := ls\<rparr>" for ls]
    by (auto simp: emit_def)
next
  case (Terminated ob)
  assume "x \<in> set (terminated_once (step s i))"
  then show ?thesis using Terminated by (auto simp: terminated_def split: if_splits option.splits)
next
  case CallConnect
  assume "x \<in> set (terminated_once (step s i))"
  then show ?thesis using armed_sview [OF sview_step, of i s] CallConnect by simp
next
  case CallDisconnect
  assume "x \<in> set (terminated_once (step s i))"
  then show ?thesis using armed_sview [OF sview_step, of i s] CallDisconnect by simp
next
  case (CallInvite ph sid)
  assume "x \<in> set (terminated_once (step s i))"
  then show ?thesis using armed_sview [OF sview_step, of i s] CallInvite by simp
next
  case (CallReconfigure opts)
  assume "x \<in> set (terminated_once (step s i))"
  then show ?thesis using armed_sview [OF sview_step, of i s] CallReconfigure by simp
next
  case (EngineDisconnected d)
  assume "x \<in> set (terminated_once (step s i))"
  then show ?thesis using armed_sview [OF sview_step, of i s] EngineDisconnected by simp
next
  case (EngineDisconnectFailed d e)
  assume "x \<in> set (terminated_once (step s i))"
  then show ?thesis using armed_sview [OF sview_step, of i s] EngineDisconnectFailed by simp
next
  case (Timer y)
  assume "x \<in> set (terminated_once (step s i))"
  then show ?thesis using armed_sview [OF sview_step, of i s] Timer by simp
qed

lemma never_rearmed:
  "ob < next_id s \<Longrightarrow> ob \<notin> set (terminated_once s) \<Longrightarrow>
   ob \<notin> set (terminated_once (run s ins))"
proof (induction ins arbitrary: s)
  case Nil
  then show ?case by simp
next
  case (Cons i ins)
  have "ob \<notin> set (terminated_once (step s i))"
    using armed_step [of ob s i] Cons.prems by auto
  moreover have "ob < next_id (step s i)"
    using Cons.prems(1) loc_next [OF step_any, of s i] by simp
  ultimately show ?case using Cons.IH by simp
qed


lemma sessions_of_sview: "sview s' = sview s \<Longrightarrow> sessions s' = sessions s"
  by (simp add: sview_def)


section \<open>Configuration\<close>

lemma example_configure: "configure example_options = Inr example_wrapped"
  by (simp add: configure_def example_options_def example_wrapped_def)



section \<open>The session registry is outside \<open>disconnect\<close>\<close>

lemma sview_parts:
  "sview s' = sview s \<Longrightarrow>
   sessions s' = sessions s \<and> session_objs s' = session_objs s \<and>
   terminated_once s' = terminated_once s"
  by (simp add: sview_def)

text \<open>
  C10.  \<open>disconnect\<close> never touches the session registry: the call itself, its
  continuation after \<open>await this.unregisteredPromise\<close> and its continuation after
  \<open>await this.ua.disconnect()\<close> each leave \<open>sessions\<close> as it was, so every id mapped
  before is mapped to the same session afterwards; the session objects and their
  \<open>'terminated'\<close> listeners are untouched as well (no session is removed or terminated).
\<close>

theorem disconnect_never_mutates_registry:
  "sessions (step s CallDisconnect) = sessions s \<and>
   session_objs (step s CallDisconnect) = session_objs s \<and>
   terminated_once (step s CallDisconnect) = terminated_once s \<and>
   sessions (resume (DisconnectAfterUnreg rp) outcome s) = sessions s \<and>
   session_objs (resume (DisconnectAfterUnreg rp) outcome s) = session_objs s \<and>
   terminated_once (resume (DisconnectAfterUnreg rp) outcome s) = terminated_once s \<and>
   sessions (resume (DisconnectAfterUa rp) outcome s) = sessions s \<and>
   session_objs (resume (DisconnectAfterUa rp) outcome s) = session_objs s \<and>
   terminated_once (resume (DisconnectAfterUa rp) outcome s) = terminated_once s"
proof -
  have "sview (step s CallDisconnect) = sview s" by simp
  moreover have "sview (resume (DisconnectAfterUnreg rp) outcome s) = sview s"
    by (rule sview_resume) simp
  moreover have "sview (resume (DisconnectAfterUa rp) outcome s) = sview s"
    by (rule sview_resume) simp
  ultimately show ?thesis
    using sview_parts [of "step s CallDisconnect" s]
      sview_parts [of "resume (DisconnectAfterUnreg rp) outcome s" s]
      sview_parts [of "resume (DisconnectAfterUa rp) outcome s" s]
    by simp
qed

section \<open>Overlapping \<open>disconnect\<close> calls\<close>

lemma disconnectPromise_never_assigned: "disconnectPromise (run (initial w) ins) = None"
  by (rule disconnectPromise_reachable)

text \<open>
  C5.  The guard at the head of \<open>disconnect\<close> reads \<open>disconnectPromise\<close>, but nothing
  assigns that field.  On a registered client two overlapping calls therefore each run a
  teardown: each sends \<open>unregister\<close>, each sends \<open>ua.disconnect()\<close>, the first call
  resolves and the second is rejected with the \<open>TypeError\<close> of reading
  \<open>this.ua.transport\<close> after the first call deleted \<open>this.ua\<close>.
\<close>

theorem overlapping_disconnects_both_tear_down:
  "disconnectPromise (run (initial example_wrapped) (registered_history @ [CallDisconnect])) = None \<and>
   commands (run (initial example_wrapped) overlapping_disconnects) =
     [(0, Start 1), (0, Register 1), (4, Unregister 1), (6, Unregister 1),
      (4, UaDisconnect 1), (6, UaDisconnect 1)] \<and>
   promises (run (initial example_wrapped) overlapping_disconnects) (PResult 4) =
     Some (Resolved VUndef) \<and>
   promises (run (initial example_wrapped) overlapping_disconnects) (PResult 6) =
     Some (Rejected ErrTypeError)"
  by code_simp

section \<open>Concrete runs\<close>

text \<open>
  C1, as stated, fails.  Two \<open>connect\<close> calls overlap (the second finds the first one's
  registration future pending and adopts it).  The transport then drops, the supervised
  reconnect succeeds on a new engine instance, and the first caller resolves with
  \<open>true\<close> through the new registration future, while the second caller still waits for
  the old future, whose listeners went with the old engine instance: the two callers do
  not get the same outcome, and \<open>start\<close> was issued twice.
\<close>

theorem overlapping_connect_outcomes_differ:
  "registeredPromise (run (initial example_wrapped) [CallConnect]) = Some (PReg 3) \<and>
   promises (run (initial example_wrapped) [CallConnect]) (PReg 3) = None \<and>
   promises (run (initial example_wrapped) overlapping_connects) (PResult 0) =
     Some (Resolved (VBool True)) \<and>
   promises (run (initial example_wrapped) overlapping_connects) (PResult 4) = None \<and>
   waiters (run (initial example_wrapped) overlapping_connects) = [(PReg 3, Adopt 4)] \<and>
   microtasks (run (initial example_wrapped) overlapping_connects) = [] \<and>
   timers (run (initial example_wrapped) overlapping_connects) = [] \<and>
   listeners (run (initial example_wrapped) overlapping_connects) =
     [(OnUa 10, HInvite), (OnUa 10, HRegistrationFailed 12),
      (OnTransport 10, HDisconnected 11)] \<and>
   commands (run (initial example_wrapped) overlapping_connects) =
     [(0, Start 1), (5, UaDisconnect 1), (9, Start 10), (9, Register 10), (0, Register 10)]"
  by code_simp


lemma unregistering_client_facts:
  "unregisteredPromise unregistering_client = Some (PUnreg 5)"
  "promises unregistering_client (PUnreg 5) = None"
  "next_id unregistering_client = 6"
  "ua unregistering_client = Some 1"
  by code_simp+


lemma connecting_client_registration:
  "registeredPromise connecting_client = Some (PReg 3)"
  "unregisteredPromise connecting_client = None"
  "promises connecting_client (PReg 3) = None"
  by code_simp+

theorem connect_returns_existing_registration_witness:
  "registeredPromise connecting_client = Some (PReg 3) \<and>
   unregisteredPromise connecting_client = None \<and>
   registeredPromise (step connecting_client CallConnect) = Some (PReg 3) \<and>
   commands (step connecting_client CallConnect) = commands connecting_client \<and>
   step connecting_client CallConnect = await (PReg 3) (Adopt 4) (bump connecting_client) \<and>
   filter (\<lambda>c. fst c = 4)
     (commands (run (step connecting_client CallConnect)
        [Emit (OnUa 1) TransportCreated, Emit (OnTransport 1) Connected, Tick,
         Emit (OnUa 1) Registered, Tick, Tick])) = []"
proof -
  let ?s' = "step connecting_client CallConnect"
  note t = connect_returns_existing_registration
    [OF connecting_client_def connecting_client_registration(1,2)]
  note n = connecting_client_facts(3)
  from t have t1: "registeredPromise ?s' = Some (PReg 3)" by blast
  from t have t2: "commands ?s' = commands connecting_client" by blast
  from t connecting_client_facts(1)
  have "?s' = await (PReg 3) (Adopt (next_id connecting_client)) (bump connecting_client)"
    by (simp del: step.simps)
  then have t3: "?s' = await (PReg 3) (Adopt 4) (bump connecting_client)"
    unfolding n .
  from t have "\<forall>ins. filter (\<lambda>c. fst c = next_id connecting_client)
      (commands (run ?s' ins)) = []" by blast
  then have t4: "filter (\<lambda>c. fst c = 4)
     (commands (run ?s'
        [Emit (OnUa 1) TransportCreated, Emit (OnTransport 1) Connected, Tick,
         Emit (OnUa 1) Registered, Tick, Tick])) = []"
    unfolding n by blast
  show ?thesis
    using connecting_client_registration(1,2) t1 t2 t3 t4 by (intro conjI)
qed

lemma fresh_client: "initial example_wrapped = run (initial example_wrapped) []"
  by simp

lemma fresh_client_facts:
  "registeredPromise (initial example_wrapped) = None"
  "next_id (initial example_wrapped) = 0"
  by (simp_all add: initial_def)


lemma ringing_client_facts:
  "sessions ringing_client ''call-7'' = Some 4"
  by code_simp


end
